theory Spec2Isabelle
  imports Complex_Main
begin

section \<open>Scalars: real numbers with the special values of float arithmetic\<close>

text \<open>
  The notebook computes with numpy arrays of doubles. The model is exact: a finite
  entry is a real number, with no rounding, overflow or underflow. What it keeps of
  float arithmetic is its special values, because numpy does not raise on a division
  by zero: \<open>0/0\<close> is NaN and \<open>a/0\<close> is an infinity, and both flow on through the
  later operations. There is one zero (no signed zeros); the only divisor in the
  program is a 2-norm, which is never a negative zero.
\<close>

datatype fl = Fin real | PInf | NInf | NaN

fun is_fin :: "fl \<Rightarrow> bool" where
  "is_fin (Fin a) = True"
| "is_fin _ = False"

fun re :: "fl \<Rightarrow> real" where
  "re (Fin a) = a"
| "re _ = 0"

text \<open>An infinity of the sign of a nonzero real.\<close>

definition inf_of :: "real \<Rightarrow> fl" where
  "inf_of a = (if 0 < a then PInf else NInf)"

fun fneg :: "fl \<Rightarrow> fl" where
  "fneg (Fin a) = Fin (- a)"
| "fneg PInf = NInf"
| "fneg NInf = PInf"
| "fneg NaN = NaN"

instantiation fl :: "{comm_monoid_add, numeral, minus, times, inverse}"
begin

definition zero_fl :: fl where
  "zero_fl = Fin 0"

definition one_fl :: fl where
  "one_fl = Fin 1"

fun plus_fl :: "fl \<Rightarrow> fl \<Rightarrow> fl" where
  "plus_fl NaN y = NaN"
| "plus_fl x NaN = NaN"
| "plus_fl (Fin a) (Fin b) = Fin (a + b)"
| "plus_fl PInf NInf = NaN"
| "plus_fl NInf PInf = NaN"
| "plus_fl PInf y = PInf"
| "plus_fl NInf y = NInf"
| "plus_fl (Fin a) y = y"

definition minus_fl :: "fl \<Rightarrow> fl \<Rightarrow> fl" where
  "minus_fl x y = x + fneg y"

fun times_fl :: "fl \<Rightarrow> fl \<Rightarrow> fl" where
  "times_fl NaN y = NaN"
| "times_fl x NaN = NaN"
| "times_fl (Fin a) (Fin b) = Fin (a * b)"
| "times_fl (Fin a) PInf = (if a = 0 then NaN else inf_of a)"
| "times_fl (Fin a) NInf = (if a = 0 then NaN else inf_of (- a))"
| "times_fl PInf (Fin b) = (if b = 0 then NaN else inf_of b)"
| "times_fl NInf (Fin b) = (if b = 0 then NaN else inf_of (- b))"
| "times_fl PInf PInf = PInf"
| "times_fl NInf NInf = PInf"
| "times_fl PInf NInf = NInf"
| "times_fl NInf PInf = NInf"

fun divide_fl :: "fl \<Rightarrow> fl \<Rightarrow> fl" where
  "divide_fl NaN y = NaN"
| "divide_fl x NaN = NaN"
| "divide_fl (Fin a) (Fin b) =
     (if b = 0 then (if a = 0 then NaN else inf_of a) else Fin (a / b))"
| "divide_fl (Fin a) y = Fin 0"
| "divide_fl PInf (Fin b) = (if 0 \<le> b then PInf else NInf)"
| "divide_fl NInf (Fin b) = (if 0 \<le> b then NInf else PInf)"
| "divide_fl x y = NaN"

definition inverse_fl :: "fl \<Rightarrow> fl" where
  "inverse_fl x = divide (Fin 1) (x::fl)"

instance
proof
  fix x y z :: fl
  show "0 + x = x"
    unfolding zero_fl_def by (cases x; simp)
  show "x + y = y + x"
    by (cases x; cases y; simp)
  show "x + y + z = x + (y + z)"
    by (cases x; cases y; cases z; simp)
qed

end

text \<open>\<open>np.sign\<close>: -1, 0 or 1 by the sign of a number, and 0 at 0; NaN at NaN.\<close>

fun np_sign :: "fl \<Rightarrow> fl" where
  "np_sign (Fin a) = Fin (sgn a)"
| "np_sign PInf = Fin 1"
| "np_sign NInf = Fin (- 1)"
| "np_sign NaN = NaN"

text \<open>\<open>np.sqrt\<close>: NaN below zero.\<close>

fun np_sqrt :: "fl \<Rightarrow> fl" where
  "np_sqrt (Fin a) = (if a < 0 then NaN else Fin (sqrt a))"
| "np_sqrt PInf = PInf"
| "np_sqrt NInf = NaN"
| "np_sqrt NaN = NaN"

section \<open>Arrays\<close>

text \<open>
  A numpy array is its shape and its entries. A one-dimensional array is a length and
  the entry at each index below it; a two-dimensional array is a row count, a column
  count and the entry at each row and column. The model never reads an entry outside
  the shape: where the source would, the model returns the error the source raises.
\<close>

record vec =
  vlen :: nat
  vent :: "nat \<Rightarrow> fl"

record mat =
  nrows :: nat
  ncols :: nat
  ent :: "nat \<Rightarrow> nat \<Rightarrow> fl"

datatype error = IndexError | ValueError

text \<open>Arrays written out as lists, to state and read concrete examples.\<close>

definition vec_of :: "fl list \<Rightarrow> vec" where
  "vec_of xs = \<lparr>vlen = length xs, vent = (\<lambda>i. if i < length xs then xs ! i else 0)\<rparr>"

definition to_list :: "vec \<Rightarrow> fl list" where
  "to_list x = map (vent x) [0..<vlen x]"

definition mat_of :: "nat \<Rightarrow> nat \<Rightarrow> fl list list \<Rightarrow> mat" where
  "mat_of m n rows =
     \<lparr>nrows = m, ncols = n,
      ent = (\<lambda>i j. if i < m \<and> j < n \<and> i < length rows \<and> j < length (rows ! i)
                   then rows ! i ! j else 0)\<rparr>"

definition to_rows :: "mat \<Rightarrow> fl list list" where
  "to_rows A = map (\<lambda>i. map (ent A i) [0..<ncols A]) [0..<nrows A]"

text \<open>\<open>np.zeros\<close>, for both ranks.\<close>

definition zeros1 :: "nat \<Rightarrow> vec" where
  "zeros1 m = \<lparr>vlen = m, vent = (\<lambda>i. 0)\<rparr>"

definition zeros2 :: "nat \<Rightarrow> nat \<Rightarrow> mat" where
  "zeros2 m n = \<lparr>nrows = m, ncols = n, ent = (\<lambda>i j. 0)\<rparr>"

text \<open>The slices the program takes: \<open>x[k:]\<close>, \<open>A[k:,j]\<close> and \<open>A[:n,:]\<close>.\<close>

definition tail_from :: "vec \<Rightarrow> nat \<Rightarrow> vec" where
  "tail_from x k = \<lparr>vlen = vlen x - k, vent = (\<lambda>i. vent x (k + i))\<rparr>"

definition col_from :: "mat \<Rightarrow> nat \<Rightarrow> nat \<Rightarrow> vec" where
  "col_from A k j = \<lparr>vlen = nrows A - k, vent = (\<lambda>i. ent A (k + i) j)\<rparr>"

definition rows_upto :: "mat \<Rightarrow> nat \<Rightarrow> mat" where
  "rows_upto A n = A\<lparr>nrows := min n (nrows A)\<rparr>"

text \<open>
  The slice assignments \<open>x[k:] = y\<close> and \<open>A[k:,j] = y\<close>. Every assignment of the
  program writes a vector of the slice's own length.
\<close>

definition set_tail :: "vec \<Rightarrow> nat \<Rightarrow> vec \<Rightarrow> vec" where
  "set_tail x k y =
     x\<lparr>vent := (\<lambda>i. if k \<le> i \<and> i < vlen x then vent y (i - k) else vent x i)\<rparr>"

definition set_col_from :: "mat \<Rightarrow> nat \<Rightarrow> nat \<Rightarrow> vec \<Rightarrow> mat" where
  "set_col_from A k j y =
     A\<lparr>ent := (\<lambda>i c. if c = j \<and> k \<le> i \<and> i < nrows A then vent y (i - k) else ent A i c)\<rparr>"

text \<open>Arithmetic on one-dimensional arrays of one length, and with a scalar.\<close>

definition vsub :: "vec \<Rightarrow> vec \<Rightarrow> vec" where
  "vsub x y = \<lparr>vlen = vlen x, vent = (\<lambda>i. vent x i - vent y i)\<rparr>"

definition smul :: "fl \<Rightarrow> vec \<Rightarrow> vec" where
  "smul c x = \<lparr>vlen = vlen x, vent = (\<lambda>i. c * vent x i)\<rparr>"

definition vmul :: "vec \<Rightarrow> fl \<Rightarrow> vec" where
  "vmul x c = \<lparr>vlen = vlen x, vent = (\<lambda>i. vent x i * c)\<rparr>"

definition vdiv :: "vec \<Rightarrow> fl \<Rightarrow> vec" where
  "vdiv x c = \<lparr>vlen = vlen x, vent = (\<lambda>i. vent x i / c)\<rparr>"

text \<open>\<open>np.dot\<close> of two one-dimensional arrays (the caller checks the lengths).\<close>

definition dot :: "vec \<Rightarrow> vec \<Rightarrow> fl" where
  "dot x y = (\<Sum>i<vlen x. vent x i * vent y i)"

text \<open>\<open>np.linalg.norm(x, 2)\<close>: the square root of the sum of the squares.\<close>

definition norm2 :: "vec \<Rightarrow> fl" where
  "norm2 x = np_sqrt (\<Sum>i<vlen x. vent x i * vent x i)"

section \<open>The program\<close>

subsection \<open>\<open>householder\<close>\<close>

text \<open>
  The line \<open>x[0] = x[0] + np.sign(x[0])*np.linalg.norm(x,2)\<close>. The norm is taken
  before the entry is written.
\<close>

definition perturb :: "vec \<Rightarrow> vec" where
  "perturb x = x\<lparr>vent := (vent x)(0 := vent x 0 + np_sign (vent x 0) * norm2 x)\<rparr>"

text \<open>
  The body of the inner loop:
  \<open>R[k:,j] = R[k:,j] - 2*V[k:,k]*np.dot(V[k:,k].T,R[k:,j])\<close>.
\<close>

definition reflect_col :: "mat \<Rightarrow> nat \<Rightarrow> nat \<Rightarrow> mat \<Rightarrow> mat" where
  "reflect_col V k j R =
     set_col_from R k j
       (vsub (col_from R k j)
          (vmul (smul 2 (col_from V k k)) (dot (col_from V k k) (col_from R k j))))"

text \<open>
  One pass of the outer loop, at \<open>k\<close>. Reading \<open>x[0]\<close> of an empty slice raises
  IndexError; dividing by a zero norm does not raise.
\<close>

definition householder_step :: "nat \<Rightarrow> mat \<times> mat \<Rightarrow> error + mat \<times> mat" where
  "householder_step k s =
     (case s of (V, R) \<Rightarrow>
        let x = col_from R k k in
        if vlen x = 0 then Inl IndexError
        else
          let x = perturb x;
              x = vdiv x (norm2 x);
              V = set_col_from V k k x;
              R = fold (reflect_col V k) [k..<ncols R] R
          in Inr (V, R))"

fun householder_loop :: "nat list \<Rightarrow> mat \<times> mat \<Rightarrow> error + mat \<times> mat" where
  "householder_loop [] s = Inr s"
| "householder_loop (k # ks) s =
     (case householder_step k s of
        Inl e \<Rightarrow> Inl e
      | Inr s' \<Rightarrow> householder_loop ks s')"

definition householder :: "mat \<Rightarrow> error + mat \<times> mat" where
  "householder A =
     (let m = nrows A; n = ncols A;
          V = zeros2 m n;
          R = A
      in case householder_loop [0..<n - 1] (V, R) of
           Inl e \<Rightarrow> Inl e
         | Inr (V, R) \<Rightarrow> Inr (V, rows_upto R n))"

subsection \<open>\<open>apply_Q\<close>\<close>

text \<open>
  The body of the loop: \<open>x[k:] = x[k:] - 2*np.dot(V[k:,k],x[k:])*V[k:,k]\<close>.
  \<open>np.dot\<close> raises ValueError when the two slices differ in length.
\<close>

definition reflect_tail :: "mat \<Rightarrow> nat \<Rightarrow> vec \<Rightarrow> error + vec" where
  "reflect_tail V k x =
     (if vlen (col_from V k k) \<noteq> vlen (tail_from x k) then Inl ValueError
      else Inr (set_tail x k
             (vsub (tail_from x k)
                (smul (2 * dot (col_from V k k) (tail_from x k)) (col_from V k k)))))"

fun apply_Q_loop :: "mat \<Rightarrow> nat list \<Rightarrow> vec \<Rightarrow> error + vec" where
  "apply_Q_loop V [] x = Inr x"
| "apply_Q_loop V (k # ks) x =
     (case reflect_tail V k x of
        Inl e \<Rightarrow> Inl e
      | Inr x' \<Rightarrow> apply_Q_loop V ks x')"

text \<open>\<open>range(n-1,-1,-1)\<close> counts down from \<open>n-1\<close> to 0.\<close>

definition apply_Q :: "mat \<Rightarrow> vec \<Rightarrow> error + vec" where
  "apply_Q V x = apply_Q_loop V (rev [0..<ncols V]) x"

subsection \<open>\<open>compute_Q\<close>\<close>

text \<open>
  One pass of the loop: a fresh zero vector of length \<open>m\<close>, \<open>x[k] = 1.\<close> (IndexError
  when \<open>k\<close> is not below \<open>m\<close>), and \<open>Q[:,k] = apply_Q(V,x)\<close>.
\<close>

definition unit_vec :: "nat \<Rightarrow> nat \<Rightarrow> error + vec" where
  "unit_vec m k =
     (let x = zeros1 m in
      if k < m then Inr (x\<lparr>vent := (vent x)(k := 1)\<rparr>) else Inl IndexError)"

definition compute_Q_step :: "mat \<Rightarrow> nat \<Rightarrow> mat \<Rightarrow> error + mat" where
  "compute_Q_step V k Q =
     (case unit_vec (nrows V) k of
        Inl e \<Rightarrow> Inl e
      | Inr x \<Rightarrow>
          (case apply_Q V x of
             Inl e \<Rightarrow> Inl e
           | Inr y \<Rightarrow> Inr (set_col_from Q 0 k y)))"

fun compute_Q_loop :: "mat \<Rightarrow> nat list \<Rightarrow> mat \<Rightarrow> error + mat" where
  "compute_Q_loop V [] Q = Inr Q"
| "compute_Q_loop V (k # ks) Q =
     (case compute_Q_step V k Q of
        Inl e \<Rightarrow> Inl e
      | Inr Q' \<Rightarrow> compute_Q_loop V ks Q')"

definition compute_Q :: "mat \<Rightarrow> error + mat" where
  "compute_Q V = compute_Q_loop V [0..<ncols V] (zeros2 (nrows V) (ncols V))"

subsection \<open>The driver\<close>

text \<open>
  The driver forms \<open>np.dot(Q.T, b)\<close>. \<open>transpose_m\<close> is \<open>.T\<close>; \<open>matvec\<close> and
  \<open>matmul\<close> are \<open>np.dot\<close> of a matrix with a vector and with a matrix, for arguments
  whose shapes agree (numpy raises ValueError otherwise).
\<close>

definition transpose_m :: "mat \<Rightarrow> mat" where
  "transpose_m A = \<lparr>nrows = ncols A, ncols = nrows A, ent = (\<lambda>i j. ent A j i)\<rparr>"

definition matvec :: "mat \<Rightarrow> vec \<Rightarrow> vec" where
  "matvec A x = \<lparr>vlen = nrows A, vent = (\<lambda>i. \<Sum>j<ncols A. ent A i j * vent x j)\<rparr>"

definition matmul :: "mat \<Rightarrow> mat \<Rightarrow> mat" where
  "matmul A B =
     \<lparr>nrows = nrows A, ncols = ncols B, ent = (\<lambda>i j. \<Sum>l<ncols A. ent A i l * ent B l j)\<rparr>"

definition eye :: "nat \<Rightarrow> mat" where
  "eye n = \<lparr>nrows = n, ncols = n, ent = (\<lambda>i j. if i = j then 1 else 0)\<rparr>"

text \<open>
  The first lines of the driver, \<open>V, R = householder(A)\<close> and \<open>Q = compute_Q(V)\<close>,
  followed by one product, with the result read as lists: \<open>apply_Q(V, x)\<close>,
  \<open>np.dot(Q.T, x)\<close>, \<open>np.dot(Q, R)\<close> and \<open>np.dot(Q.T, Q)\<close>.
\<close>

definition householder_rows :: "mat \<Rightarrow> error + fl list list \<times> fl list list" where
  "householder_rows A = map_sum id (\<lambda>(V, R). (to_rows V, to_rows R)) (householder A)"

definition apply_Q_of :: "mat \<Rightarrow> vec \<Rightarrow> error + fl list" where
  "apply_Q_of A x =
     (case householder A of
        Inl e \<Rightarrow> Inl e
      | Inr (V, R) \<Rightarrow> map_sum id to_list (apply_Q V x))"

definition Qt_dot_of :: "mat \<Rightarrow> vec \<Rightarrow> error + fl list" where
  "Qt_dot_of A x =
     (case householder A of
        Inl e \<Rightarrow> Inl e
      | Inr (V, R) \<Rightarrow>
          (case compute_Q V of
             Inl e \<Rightarrow> Inl e
           | Inr Q \<Rightarrow> Inr (to_list (matvec (transpose_m Q) x))))"

definition QR_of :: "mat \<Rightarrow> error + fl list list" where
  "QR_of A =
     (case householder A of
        Inl e \<Rightarrow> Inl e
      | Inr (V, R) \<Rightarrow>
          (case compute_Q V of
             Inl e \<Rightarrow> Inl e
           | Inr Q \<Rightarrow> Inr (to_rows (matmul Q R))))"

definition QtQ_of :: "mat \<Rightarrow> error + fl list list" where
  "QtQ_of A =
     (case householder A of
        Inl e \<Rightarrow> Inl e
      | Inr (V, R) \<Rightarrow>
          (case compute_Q V of
             Inl e \<Rightarrow> Inl e
           | Inr Q \<Rightarrow> Inr (to_rows (matmul (transpose_m Q) Q))))"

subsection \<open>\<open>apply_Q\<close> on the caller's array\<close>

text \<open>
  \<open>apply_Q\<close> assigns to slices of its argument and returns the argument. To say what
  the caller sees, arrays live in a store, the argument is an address, and the slice
  assignment writes the array at that address. When \<open>np.dot\<close> raises, the store is left
  as it is at that moment. \<open>V\<close> is passed as a value: it is not a view of \<open>x\<close>.
\<close>

type_synonym addr = nat

type_synonym store = "addr \<Rightarrow> vec"

fun apply_Q_loop_at :: "mat \<Rightarrow> nat list \<Rightarrow> addr \<Rightarrow> store \<Rightarrow> (error + addr) \<times> store" where
  "apply_Q_loop_at V [] p \<sigma> = (Inr p, \<sigma>)"
| "apply_Q_loop_at V (k # ks) p \<sigma> =
     (case reflect_tail V k (\<sigma> p) of
        Inl e \<Rightarrow> (Inl e, \<sigma>)
      | Inr x' \<Rightarrow> apply_Q_loop_at V ks p (\<sigma>(p := x')))"

definition apply_Q_at :: "mat \<Rightarrow> addr \<Rightarrow> store \<Rightarrow> (error + addr) \<times> store" where
  "apply_Q_at V p \<sigma> = apply_Q_loop_at V (rev [0..<ncols V]) p \<sigma>"

section \<open>Exact arithmetic and the sub-columns of a run\<close>

text \<open>An array of real numbers: every entry within the shape is finite.\<close>

definition fin_vec :: "vec \<Rightarrow> bool" where
  "fin_vec x = (\<forall>i<vlen x. is_fin (vent x i))"

definition fin_mat :: "mat \<Rightarrow> bool" where
  "fin_mat A = (\<forall>i<nrows A. \<forall>j<ncols A. is_fin (ent A i j))"

text \<open>
  A vector that is not the zero vector, and the runs of the outer loop of
  \<open>householder\<close> in which every extracted sub-column \<open>R[k:,k]\<close> is one.
\<close>

definition nonzero_vec :: "vec \<Rightarrow> bool" where
  "nonzero_vec x = (\<exists>i<vlen x. vent x i \<noteq> 0)"

fun subcolumns_nonzero :: "nat list \<Rightarrow> mat \<times> mat \<Rightarrow> bool" where
  "subcolumns_nonzero [] s = True"
| "subcolumns_nonzero (k # ks) s =
     (nonzero_vec (col_from (snd s) k k) \<and>
      (case householder_step k s of
         Inl e \<Rightarrow> False
       | Inr s' \<Rightarrow> subcolumns_nonzero ks s'))"

definition all_subcolumns_nonzero :: "mat \<Rightarrow> bool" where
  "all_subcolumns_nonzero A =
     subcolumns_nonzero [0..<ncols A - 1] (zeros2 (nrows A) (ncols A), A)"

text \<open>
  The runs in which the leading entry \<open>x[0] = R[k,k]\<close> of every extracted sub-column is
  nonzero, so that \<open>np.sign\<close> is 1 or -1 at it.
\<close>

fun leading_entries_nonzero :: "nat list \<Rightarrow> mat \<times> mat \<Rightarrow> bool" where
  "leading_entries_nonzero [] s = True"
| "leading_entries_nonzero (k # ks) s =
     (k < nrows (snd s) \<and> ent (snd s) k k \<noteq> 0 \<and>
      (case householder_step k s of
         Inl e \<Rightarrow> False
       | Inr s' \<Rightarrow> leading_entries_nonzero ks s'))"

definition all_leading_entries_nonzero :: "mat \<Rightarrow> bool" where
  "all_leading_entries_nonzero A =
     leading_entries_nonzero [0..<ncols A - 1] (zeros2 (nrows A) (ncols A), A)"

text \<open>
  The invariant of a reflector set: its entries are finite and each column \<open>k\<close>, from
  row \<open>k\<close> down, has Euclidean norm 1 or is zero (a column the loop has not written).
\<close>

definition unit_or_zero :: "vec \<Rightarrow> bool" where
  "unit_or_zero v =
     ((\<Sum>i<vlen v. re (vent v i) * re (vent v i)) = 1 \<or> (\<forall>i<vlen v. vent v i = 0))"

definition reflector_set :: "mat \<Rightarrow> bool" where
  "reflector_set V = (fin_mat V \<and> (\<forall>k<ncols V. unit_or_zero (col_from V k k)))"

section \<open>Basic facts\<close>

lemma numeral_fl: "(numeral k :: fl) = Fin (numeral k)"
proof (induction k)
  case One
  show ?case by (simp add: one_fl_def)
next
  case (Bit0 k)
  have "(numeral (num.Bit0 k) :: fl) = Fin (numeral k) + Fin (numeral k)"
    unfolding numeral_Bit0 Bit0 ..
  also have "\<dots> = Fin (numeral (num.Bit0 k))"
    unfolding numeral_Bit0 by simp
  finally show ?case .
next
  case (Bit1 k)
  have "(numeral (num.Bit1 k) :: fl) = Fin (numeral k) + Fin (numeral k) + Fin 1"
    unfolding numeral_Bit1 Bit1 one_fl_def ..
  also have "\<dots> = Fin (numeral (num.Bit1 k))"
    unfolding numeral_Bit1 by simp
  finally show ?case .
qed

lemma fl_minus [simp]: "Fin a - Fin b = Fin (a - b)" "x - NaN = NaN" "NaN - x = NaN"
  by (cases x; simp add: minus_fl_def)+

lemma sel_simps [simp]:
  "vlen (tail_from x k) = vlen x - k" "vent (tail_from x k) i = vent x (k + i)"
  "vlen (col_from A k j) = nrows A - k" "vent (col_from A k j) i = ent A (k + i) j"
  "vlen (set_tail x k y) = vlen x"
  "vent (set_tail x k y) i = (if k \<le> i \<and> i < vlen x then vent y (i - k) else vent x i)"
  "nrows (set_col_from A k j y) = nrows A" "ncols (set_col_from A k j y) = ncols A"
  "ent (set_col_from A k j y) i c =
     (if c = j \<and> k \<le> i \<and> i < nrows A then vent y (i - k) else ent A i c)"
  "vlen (vsub x y) = vlen x" "vent (vsub x y) i = vent x i - vent y i"
  "vlen (smul a x) = vlen x" "vent (smul a x) i = a * vent x i"
  "vlen (vmul x a) = vlen x" "vent (vmul x a) i = vent x i * a"
  "vlen (vdiv x a) = vlen x" "vent (vdiv x a) i = vent x i / a"
  "vlen (perturb x) = vlen x"
  "vent (perturb x) i = (if i = 0 then vent x 0 + np_sign (vent x 0) * norm2 x else vent x i)"
  "nrows (zeros2 m n) = m" "ncols (zeros2 m n) = n" "ent (zeros2 m n) i j = 0"
  "vlen (zeros1 m) = m" "vent (zeros1 m) i = 0"
  "nrows (rows_upto A n) = min n (nrows A)" "ncols (rows_upto A n) = ncols A"
  "ent (rows_upto A n) = ent A"
  "nrows (mat_of m n rows) = m" "ncols (mat_of m n rows) = n"
  "vlen (vec_of xs) = length xs"
  by (simp_all add: tail_from_def col_from_def set_tail_def set_col_from_def vsub_def smul_def
      vmul_def vdiv_def perturb_def zeros2_def zeros1_def rows_upto_def mat_of_def vec_of_def)

lemma ent_mat_of [simp]:
  "ent (mat_of m n rows) i j =
     (if i < m \<and> j < n \<and> i < length rows \<and> j < length (rows ! i) then rows ! i ! j else 0)"
  by (simp add: mat_of_def)

lemma vent_vec_of [simp]: "vent (vec_of xs) i = (if i < length xs then xs ! i else 0)"
  by (simp add: vec_of_def)

lemma mat_eq_iff:
  "(A = (B::mat)) = (nrows A = nrows B \<and> ncols A = ncols B \<and> (\<forall>i j. ent A i j = ent B i j))"
  by (auto intro!: mat.equality ext)

lemma vec_eq_iff:
  "(x = (y::vec)) = (vlen x = vlen y \<and> (\<forall>i. vent x i = vent y i))"
  by (auto intro!: vec.equality ext)

subsection \<open>The inner loop of \<open>householder\<close> in closed form\<close>

lemma reflect_col_sel [simp]:
  "nrows (reflect_col V k j R) = nrows R" "ncols (reflect_col V k j R) = ncols R"
  "ent (reflect_col V k j R) i c =
     (if c = j \<and> k \<le> i \<and> i < nrows R
      then ent R i j - 2 * ent V i k * dot (col_from V k k) (col_from R k j)
      else ent R i c)"
  by (simp_all add: reflect_col_def)

lemma fold_reflect_col_dims [simp]:
  "nrows (fold (reflect_col V k) js R) = nrows R"
  "ncols (fold (reflect_col V k) js R) = ncols R"
  by (induction js arbitrary: R) simp_all

lemma dot_col_reflect_other:
  "c \<noteq> j \<Longrightarrow>
   dot (col_from V k k) (col_from (reflect_col V k j R) k c) = dot (col_from V k k) (col_from R k c)"
  by (simp add: dot_def)

text \<open>Each column is written once, from its own old entries.\<close>

lemma fold_reflect_col_ent:
  "distinct js \<Longrightarrow> ent (fold (reflect_col V k) js R) i c =
     (if c \<in> set js \<and> k \<le> i \<and> i < nrows R
      then ent R i c - 2 * ent V i k * dot (col_from V k k) (col_from R k c)
      else ent R i c)"
proof (induction js arbitrary: R)
  case Nil
  show ?case by simp
next
  case (Cons j js)
  then show ?case
    by (auto simp: dot_col_reflect_other)
qed

lemma householder_step_Inr:
  "k < nrows R \<Longrightarrow> householder_step k (V, R) =
     Inr (set_col_from V k k
            (vdiv (perturb (col_from R k k)) (norm2 (perturb (col_from R k k)))),
          fold (reflect_col
                 (set_col_from V k k
                    (vdiv (perturb (col_from R k k)) (norm2 (perturb (col_from R k k))))) k)
            [k..<ncols R] R)"
  by (simp add: householder_step_def Let_def)

lemma householder_step_Inl:
  "nrows R \<le> k \<Longrightarrow> householder_step k (V, R) = Inl IndexError"
  by (simp add: householder_step_def Let_def)

section \<open>The sign of a zero leading entry\<close>

text \<open>
  C6. The perturbation \<open>x[0] += sign(x[0]) * norm(x)\<close> uses \<open>np.sign\<close>, which is 0 at 0.
  Column 0 of the matrix with rows (0, 1) and (1, 0) has leading entry 0 and norm 1; the
  perturbed leading entry is 0, not the norm.
\<close>

theorem perturb_zero_leading_entry:
  "norm2 (col_from (mat_of 2 2 [[Fin 0, Fin 1], [Fin 1, Fin 0]]) 0 0) = Fin 1 \<and>
   to_list (perturb (col_from (mat_of 2 2 [[Fin 0, Fin 1], [Fin 1, Fin 0]]) 0 0)) = [Fin 0, Fin 1]"
  by (simp add: to_list_def norm2_def eval_nat_numeral zero_fl_def)

text \<open>
  C4. On the same matrix the returned \<open>R\<close> has rows (0, 1) and (-1, 0): the column is
  negated instead of being reduced to a multiple of the first unit vector, and the entry
  below the diagonal is -1.
\<close>

theorem householder_not_triangular:
  "householder_rows (mat_of 2 2 [[Fin 0, Fin 1], [Fin 1, Fin 0]]) =
     Inr ([[Fin 0, Fin 0], [Fin 1, Fin 0]], [[Fin 0, Fin 1], [Fin (- 1), Fin 0]])"
  by (simp add: householder_rows_def householder_def householder_step_Inr fold_reflect_col_ent
      to_rows_def dot_def norm2_def Let_def eval_nat_numeral numeral_fl zero_fl_def one_fl_def)

section \<open>Shapes and errors\<close>

lemma householder_step_dims:
  "householder_step k (V, R) = Inr (V', R') \<Longrightarrow>
   nrows V' = nrows V \<and> ncols V' = ncols V \<and> nrows R' = nrows R \<and> ncols R' = ncols R"
  by (cases "k < nrows R") (auto simp: householder_step_Inr householder_step_Inl)

lemma householder_loop_returns:
  "\<forall>k\<in>set ks. k < nrows R \<Longrightarrow> \<exists>V' R'. householder_loop ks (V, R) = Inr (V', R') \<and> nrows R' = nrows R"
proof (induction ks arbitrary: V R)
  case Nil
  show ?case by simp
next
  case (Cons k ks)
  from Cons.prems have k: "k < nrows R" by simp
  obtain V1 R1 where step: "householder_step k (V, R) = Inr (V1, R1)"
    using householder_step_Inr [OF k] by blast
  then have "nrows R1 = nrows R" by (simp add: householder_step_dims)
  with Cons.prems have "\<forall>k\<in>set ks. k < nrows R1" by simp
  from Cons.IH [OF this, of V1] step \<open>nrows R1 = nrows R\<close> show ?case by simp
qed

lemma householder_loop_raises:
  "\<exists>k\<in>set ks. nrows R \<le> k \<Longrightarrow> householder_loop ks (V, R) = Inl IndexError"
proof (induction ks arbitrary: V R)
  case Nil
  then show ?case by simp
next
  case (Cons k ks)
  show ?case
  proof (cases "k < nrows R")
    case False
    then show ?thesis by (simp add: householder_step_Inl)
  next
    case True
    obtain V1 R1 where step: "householder_step k (V, R) = Inr (V1, R1)"
      using householder_step_Inr [OF True] by blast
    then have "nrows R1 = nrows R" by (simp add: householder_step_dims)
    with Cons.prems True have "\<exists>k\<in>set ks. nrows R1 \<le> k" by auto
    from Cons.IH [OF this, of V1] step show ?thesis by simp
  qed
qed

lemma reflect_tail_cases:
  "reflect_tail V k x = Inl ValueError \<or> (\<exists>y. reflect_tail V k x = Inr y \<and> vlen y = vlen x)"
  by (simp add: reflect_tail_def)

lemma apply_Q_loop_raises:
  "0 \<in> set ks \<Longrightarrow> vlen x \<noteq> nrows V \<Longrightarrow> apply_Q_loop V ks x = Inl ValueError"
proof (induction ks arbitrary: x)
  case Nil
  then show ?case by simp
next
  case (Cons k ks)
  show ?case
  proof (cases "reflect_tail V k x")
    case (Inl e)
    with reflect_tail_cases [of V k x] show ?thesis by auto
  next
    case (Inr y)
    with reflect_tail_cases [of V k x] have len: "vlen y = vlen x" by auto
    have "k \<noteq> 0"
    proof
      assume "k = 0"
      with Inr Cons.prems(2) show False by (simp add: reflect_tail_def)
    qed
    with Cons.prems(1) have "0 \<in> set ks" by simp
    from Cons.IH [OF this, of y] len Cons.prems(2) Inr show ?thesis by simp
  qed
qed

lemma apply_Q_loop_returns:
  "vlen x = nrows V \<Longrightarrow> \<exists>y. apply_Q_loop V ks x = Inr y \<and> vlen y = vlen x"
proof (induction ks arbitrary: x)
  case Nil
  show ?case by simp
next
  case (Cons k ks)
  then have "reflect_tail V k x = Inr (set_tail x k
             (vsub (tail_from x k)
                (smul (2 * dot (col_from V k k) (tail_from x k)) (col_from V k k))))" (is "_ = Inr ?y")
    by (simp add: reflect_tail_def)
  moreover have "vlen ?y = nrows V" using Cons.prems by simp
  ultimately show ?case using Cons.IH [of ?y] Cons.prems by simp
qed

text \<open>
  C8 (as the code has it). Neither function checks a shape; an error is whatever a
  slice or \<open>np.dot\<close> raises. \<open>householder\<close> raises IndexError when the matrix has at
  least two more columns than rows, and returns when it has at most one more column than
  rows. \<open>apply_Q\<close> raises ValueError when the length of the vector differs from the
  row count of \<open>V\<close> and \<open>V\<close> has a column, and returns when the two agree.
\<close>

theorem shape_errors:
  "(nrows A + 2 \<le> ncols A \<longrightarrow> householder A = Inl IndexError) \<and>
   (ncols B \<le> nrows B + 1 \<longrightarrow> (\<exists>V R. householder B = Inr (V, R))) \<and>
   (vlen x \<noteq> nrows W \<and> 0 < ncols W \<longrightarrow> apply_Q W x = Inl ValueError) \<and>
   (vlen y = nrows U \<longrightarrow> (\<exists>z. apply_Q U y = Inr z))"
proof (intro conjI impI)
  assume "nrows A + 2 \<le> ncols A"
  then have "\<exists>k\<in>set [0..<ncols A - 1]. nrows A \<le> k" by (auto intro: bexI [of _ "nrows A"])
  then show "householder A = Inl IndexError"
    by (simp add: householder_def householder_loop_raises)
next
  assume "ncols B \<le> nrows B + 1"
  then have "\<forall>k\<in>set [0..<ncols B - 1]. k < nrows B" by auto
  from householder_loop_returns [OF this, of "zeros2 (nrows B) (ncols B)"]
  show "\<exists>V R. householder B = Inr (V, R)"
    by (auto simp: householder_def)
next
  assume "vlen x \<noteq> nrows W \<and> 0 < ncols W"
  then show "apply_Q W x = Inl ValueError"
    by (simp add: apply_Q_def apply_Q_loop_raises)
next
  assume "vlen y = nrows U"
  from apply_Q_loop_returns [OF this] show "\<exists>z. apply_Q U y = Inr z"
    by (auto simp: apply_Q_def)
qed

text \<open>
  C8 as stated fails: a matrix with one row and two columns has fewer rows than columns,
  and \<open>householder\<close> returns a result for it.
\<close>

theorem wide_matrix_returns:
  "householder_rows (mat_of 1 2 [[Fin 1, Fin 2]]) = Inr ([[Fin 1, Fin 0]], [[Fin (- 1), Fin (- 2)]])"
  by (simp add: householder_rows_def householder_def householder_step_Inr fold_reflect_col_ent
      to_rows_def dot_def norm2_def Let_def eval_nat_numeral numeral_fl zero_fl_def one_fl_def)

text \<open>The four cases of the theorem at concrete arrays.\<close>

theorem shape_errors_witness:
  "householder (mat_of 1 3 [[Fin 1, Fin 2, Fin 3]]) = Inl IndexError \<and>
   (\<exists>V R. householder (mat_of 1 2 [[Fin 1, Fin 2]]) = Inr (V, R)) \<and>
   apply_Q (mat_of 2 2 [[Fin 1, Fin 0], [Fin 0, Fin 1]]) (vec_of [Fin 1, Fin 2, Fin 3]) = Inl ValueError \<and>
   (\<exists>z. apply_Q (mat_of 2 2 [[Fin 1, Fin 0], [Fin 0, Fin 1]]) (vec_of [Fin 1, Fin 2]) = Inr z)"
  using shape_errors [of "mat_of 1 3 [[Fin 1, Fin 2, Fin 3]]" "mat_of 1 2 [[Fin 1, Fin 2]]"
      "vec_of [Fin 1, Fin 2, Fin 3]" "mat_of 2 2 [[Fin 1, Fin 0], [Fin 0, Fin 1]]"
      "vec_of [Fin 1, Fin 2]" "mat_of 2 2 [[Fin 1, Fin 0], [Fin 0, Fin 1]]"]
  by simp

section \<open>The argument of \<open>apply_Q\<close> is overwritten\<close>

lemma apply_Q_loop_at_eq:
  "\<sigma> p = x \<Longrightarrow> apply_Q_loop V ks x = Inr y \<Longrightarrow>
   apply_Q_loop_at V ks p \<sigma> = (Inr p, \<sigma>(p := y))"
proof (induct ks arbitrary: \<sigma> x)
  case Nil
  then have "\<sigma>(p := y) = \<sigma>" by auto
  then show ?case by simp
next
  case (Cons k ks)
  from Cons.prems obtain x' where step: "reflect_tail V k (\<sigma> p) = Inr x'"
    and rest: "apply_Q_loop V ks x' = Inr y"
    by (auto split: sum.splits)
  have "apply_Q_loop_at V ks p (\<sigma>(p := x')) = (Inr p, (\<sigma>(p := x'))(p := y))"
    by (rule Cons.hyps [where x = x']) (simp_all add: rest)
  then show ?case
    by (simp only: apply_Q_loop_at.simps step sum.case fun_upd_upd)
qed

lemma apply_Q_loop_at_error:
  "\<sigma> p = x \<Longrightarrow> apply_Q_loop V ks x = Inl e \<Longrightarrow> fst (apply_Q_loop_at V ks p \<sigma>) = Inl e"
proof (induct ks arbitrary: \<sigma> x)
  case Nil
  then show ?case by simp
next
  case (Cons k ks)
  show ?case
  proof (cases "reflect_tail V k (\<sigma> p)")
    case (Inl e')
    with Cons.prems show ?thesis by simp
  next
    case (Inr x')
    with Cons.prems have rest: "apply_Q_loop V ks x' = Inl e" by simp
    have "fst (apply_Q_loop_at V ks p (\<sigma>(p := x'))) = Inl e"
      by (rule Cons.hyps [where x = x']) (simp_all add: rest)
    then show ?thesis
      by (simp only: apply_Q_loop_at.simps Inr sum.case)
  qed
qed

text \<open>
  C10. When \<open>apply_Q\<close> returns, it returns the address it was given, the array at that
  address holds the transformed values, and no other array has changed: the caller's
  vector is overwritten, not copied.
\<close>

theorem apply_Q_in_place:
  "apply_Q V (\<sigma> p) = Inr y \<Longrightarrow> apply_Q_at V p \<sigma> = (Inr p, \<sigma>(p := y))"
  by (simp add: apply_Q_def apply_Q_at_def apply_Q_loop_at_eq)

lemma apply_Q_example: "apply_Q (mat_of 2 2 [[Fin 1, Fin 0], [Fin 0, Fin 0]]) (vec_of [Fin 1, Fin 2]) = Inr (vec_of [Fin (- 1), Fin 2])"
  apply (simp add: apply_Q_def eval_nat_numeral reflect_tail_def vec_eq_iff dot_def numeral_fl zero_fl_def less_Suc_eq nth_Cons')
  done

text \<open>A call on the vector (1, 2), which it overwrites with (-1, 2).\<close>

theorem apply_Q_in_place_witness:
  "apply_Q (mat_of 2 2 [[Fin 1, Fin 0], [Fin 0, Fin 0]]) ((\<lambda>a. vec_of [Fin 1, Fin 2]) 0) = Inr (vec_of [Fin (- 1), Fin 2]) \<and>
   apply_Q_at (mat_of 2 2 [[Fin 1, Fin 0], [Fin 0, Fin 0]]) 0 (\<lambda>a. vec_of [Fin 1, Fin 2])
     = (Inr 0, (\<lambda>a. vec_of [Fin 1, Fin 2])(0 := vec_of [Fin (- 1), Fin 2]))"
  using apply_Q_in_place [of "mat_of 2 2 [[Fin 1, Fin 0], [Fin 0, Fin 0]]" "\<lambda>a. vec_of [Fin 1, Fin 2]" 0 "vec_of [Fin (- 1), Fin 2]"]
    apply_Q_example
  by simp

section \<open>A zero sub-column\<close>

lemma NaN_absorbs [simp]:
  "NaN + x = NaN" "x + NaN = NaN" "NaN * x = NaN" "x * NaN = NaN" "NaN / x = NaN" "x / NaN = NaN"
  by (cases x; simp)+

lemma sum_Fin [simp]: "(\<Sum>i\<in>S. Fin (f i)) = Fin (\<Sum>i\<in>S. f i)"
  by (induct S rule: infinite_finite_induct) (simp_all add: zero_fl_def)

lemma householder_loop_append:
  "householder_loop (ks @ ls) s =
     (case householder_loop ks s of Inl e \<Rightarrow> Inl e | Inr s' \<Rightarrow> householder_loop ls s')"
  by (induct ks arbitrary: s) (simp_all split: sum.splits)

lemma zero_subcolumn_norm:
  assumes "\<not> nonzero_vec x"
  shows "norm2 x = Fin 0" and "norm2 (perturb x) = Fin 0"
proof -
  from assms have z: "\<And>i. i < vlen x \<Longrightarrow> vent x i = Fin 0"
    by (auto simp: nonzero_vec_def zero_fl_def)
  have "(\<Sum>i<vlen x. vent x i * vent x i) = (\<Sum>i<vlen x. Fin 0)"
    by (rule sum.cong) (simp_all add: z)
  then show n: "norm2 x = Fin 0" by (simp add: norm2_def)
  have "(\<Sum>i<vlen x. vent (perturb x) i * vent (perturb x) i) = (\<Sum>i<vlen x. Fin 0)"
    by (rule sum.cong) (simp_all add: z n)
  then show "norm2 (perturb x) = Fin 0" by (simp add: norm2_def)
qed

lemma zero_subcolumn_reflector:
  assumes "\<not> nonzero_vec x" "i < vlen x"
  shows "vent (vdiv (perturb x) (norm2 (perturb x))) i = NaN"
proof -
  from assms have z: "\<And>i. i < vlen x \<Longrightarrow> vent x i = Fin 0"
    by (auto simp: nonzero_vec_def zero_fl_def)
  from assms z [of 0] z [of i] show ?thesis
    by (simp add: zero_subcolumn_norm)
qed

lemma zero_subcolumn_step:
  assumes zero: "\<not> nonzero_vec (col_from R k k)" and k: "k < nrows R" and V: "nrows V = nrows R"
    and step: "householder_step k (V, R) = Inr (V', R')"
  shows "\<forall>i. k \<le> i \<and> i < nrows R \<longrightarrow> ent V' i k = NaN"
    and "\<forall>i j. k \<le> i \<and> i < nrows R \<and> k \<le> j \<and> j < ncols R \<longrightarrow> ent R' i j = NaN"
proof -
  let ?v = "vdiv (perturb (col_from R k k)) (norm2 (perturb (col_from R k k)))"
  from step k have V': "V' = set_col_from V k k ?v"
    and R': "R' = fold (reflect_col V' k) [k..<ncols R] R"
    by (auto simp: householder_step_Inr)
  have z: "ent R i k = Fin 0" if "k \<le> i" "i < nrows R" for i
  proof -
    from that have "i - k < vlen (col_from R k k)" by simp
    with zero have "vent (col_from R k k) (i - k) = 0" by (auto simp: nonzero_vec_def)
    with that show ?thesis by (simp add: zero_fl_def)
  qed
  show v: "\<forall>i. k \<le> i \<and> i < nrows R \<longrightarrow> ent V' i k = NaN"
    using V k by (simp add: V' zero_subcolumn_norm [OF zero] z)
  show "\<forall>i j. k \<le> i \<and> i < nrows R \<and> k \<le> j \<and> j < ncols R \<longrightarrow> ent R' i j = NaN"
  proof (intro allI impI)
    fix i j
    assume ij: "k \<le> i \<and> i < nrows R \<and> k \<le> j \<and> j < ncols R"
    with v have "ent V' i k = NaN" by simp
    with ij show "ent R' i j = NaN"
      unfolding R' by (simp add: fold_reflect_col_ent numeral_fl)
  qed
qed

lemma householder_step_other_column:
  assumes "householder_step l (V, R) = Inr (V', R')" and "l \<noteq> k"
  shows "ent V' i k = ent V i k"
proof -
  from assms have "l < nrows R"
    by (cases "l < nrows R") (simp_all add: householder_step_Inl)
  with assms show ?thesis by (auto simp: householder_step_Inr)
qed

lemma NaN_stays_step:
  assumes "householder_step l (V, R) = Inr (V', R')" and "ent R i j = NaN"
  shows "ent R' i j = NaN"
proof -
  from assms have "l < nrows R"
    by (cases "l < nrows R") (simp_all add: householder_step_Inl)
  with assms show ?thesis by (auto simp: householder_step_Inr fold_reflect_col_ent)
qed

lemma NaN_stays_loop:
  "householder_loop ls (V, R) = Inr (V', R') \<Longrightarrow>
   (k \<notin> set ls \<longrightarrow> ent V' i k = ent V i k) \<and> (ent R i j = NaN \<longrightarrow> ent R' i j = NaN)"
proof (induct ls arbitrary: V R)
  case Nil
  then show ?case by simp
next
  case (Cons l ls)
  from Cons.prems obtain V1 R1 where step: "householder_step l (V, R) = Inr (V1, R1)"
    and rest: "householder_loop ls (V1, R1) = Inr (V', R')"
    by (auto split: sum.splits)
  from Cons.hyps [OF rest] NaN_stays_step [OF step, of i j]
    householder_step_other_column [OF step, of k i]
  show ?case by auto
qed


lemma householder_loop_dims:
  "householder_loop ks (V, R) = Inr (V', R') \<Longrightarrow>
   nrows V' = nrows V \<and> ncols V' = ncols V \<and> nrows R' = nrows R \<and> ncols R' = ncols R"
proof (induct ks arbitrary: V R)
  case Nil
  then show ?case by simp
next
  case (Cons k ks)
  from Cons.prems obtain V1 R1 where step: "householder_step k (V, R) = Inr (V1, R1)"
    and rest: "householder_loop ks (V1, R1) = Inr (V', R')"
    by (auto split: sum.splits)
  from Cons.hyps [OF rest] householder_step_dims [OF step] show ?case by simp
qed

text \<open>
  C5 (as the code has it). \<open>householder\<close> has no guard for a zero sub-column. On a
  matrix with at least as many rows as columns, when the sub-column extracted at step
  \<open>k\<close> is the zero vector, the normalization divides 0 by the norm 0: the run still
  returns, rows \<open>k\<close> and below of column \<open>k\<close> of \<open>V\<close> are NaN, and so is every entry
  of the returned \<open>R\<close> in rows and columns \<open>k\<close> and beyond.
\<close>

theorem zero_subcolumn_gives_NaN:
  assumes shape: "ncols A \<le> nrows A" and k: "k < ncols A - 1"
    and before: "householder_loop [0..<k] (zeros2 (nrows A) (ncols A), A) = Inr (Vk, Rk)"
    and zero: "\<not> nonzero_vec (col_from Rk k k)"
  shows "\<exists>V R. householder A = Inr (V, R) \<and>
           (\<forall>i. k \<le> i \<and> i < nrows A \<longrightarrow> ent V i k = NaN) \<and>
           (\<forall>i j. k \<le> i \<and> i < ncols A \<and> k \<le> j \<and> j < ncols A \<longrightarrow> ent R i j = NaN)"
proof -
  let ?m = "nrows A" and ?n = "ncols A"
  from householder_loop_dims [OF before]
  have dims: "nrows Vk = ?m" "nrows Rk = ?m" "ncols Rk = ?n" by simp_all
  from k shape have km: "k < nrows Rk" by (simp add: dims)
  then obtain V1 R1 where step: "householder_step k (Vk, Rk) = Inr (V1, R1)"
    using householder_step_Inr by blast
  from householder_step_dims [OF step] have dims1: "nrows R1 = ?m" by (simp add: dims)
  from shape have "\<forall>l\<in>set [Suc k..<?n - 1]. l < nrows R1" by (auto simp: dims1)
  from householder_loop_returns [OF this, of V1]
  obtain V' R' where rest: "householder_loop [Suc k..<?n - 1] (V1, R1) = Inr (V', R')"
    by blast
  from k have "[0..<?n - 1] = [0..<k] @ k # [Suc k..<?n - 1]"
    by (metis le_add2 less_imp_add_positive upt_add_eq_append upt_conv_Cons zero_le)
  then have run: "householder A = Inr (V', rows_upto R' ?n)"
    using before step rest by (simp add: householder_def Let_def householder_loop_append)
  from zero_subcolumn_step [OF zero km _ step] dims
  have V1: "\<forall>i. k \<le> i \<and> i < ?m \<longrightarrow> ent V1 i k = NaN"
    and R1: "\<forall>i j. k \<le> i \<and> i < ?m \<and> k \<le> j \<and> j < ?n \<longrightarrow> ent R1 i j = NaN"
    by simp_all
  have "\<forall>i. k \<le> i \<and> i < ?m \<longrightarrow> ent V' i k = NaN"
    using NaN_stays_loop [OF rest, of k] V1 by simp
  moreover have "\<forall>i j. k \<le> i \<and> i < ?n \<and> k \<le> j \<and> j < ?n \<longrightarrow> ent (rows_upto R' ?n) i j = NaN"
    using NaN_stays_loop [OF rest, of k] R1 shape by simp
  ultimately show ?thesis using run by blast
qed

text \<open>
  C5 as stated fails: on the zero matrix of order 2, column 0 of \<open>V\<close> is NaN, not zero,
  and every entry of \<open>R\<close> is NaN.
\<close>

theorem zero_matrix_gives_NaN:
  "householder_rows (mat_of 2 2 [[Fin 0, Fin 0], [Fin 0, Fin 0]]) =
     Inr ([[NaN, Fin 0], [NaN, Fin 0]], [[NaN, NaN], [NaN, NaN]])"
  by (simp add: householder_rows_def householder_def householder_step_Inr fold_reflect_col_ent
      to_rows_def dot_def norm2_def Let_def eval_nat_numeral numeral_fl zero_fl_def one_fl_def)

lemma zero_step_example:
  "householder_step 0 (zeros2 3 3, mat_of 3 3 [[Fin 1, Fin 0, Fin 0], [Fin 0, Fin 0, Fin 0], [Fin 0, Fin 0, Fin 1]]) =
     Inr (mat_of 3 3 [[Fin 1, Fin 0, Fin 0], [Fin 0, Fin 0, Fin 0], [Fin 0, Fin 0, Fin 0]],
          mat_of 3 3 [[Fin (- 1), Fin 0, Fin 0], [Fin 0, Fin 0, Fin 0], [Fin 0, Fin 0, Fin 1]])"
  apply (simp add: householder_step_Inr mat_eq_iff fold_reflect_col_ent del: ent_mat_of)
  apply (simp add: dot_def norm2_def eval_nat_numeral numeral_fl zero_fl_def one_fl_def less_Suc_eq nth_Cons')
  done

text \<open>
  A matrix of order 3 whose second sub-column is zero after the first step: the theorem
  at \<open>k = 1\<close>.
\<close>

theorem zero_subcolumn_gives_NaN_witness:
  "ncols (mat_of 3 3 [[Fin 1, Fin 0, Fin 0], [Fin 0, Fin 0, Fin 0], [Fin 0, Fin 0, Fin 1]])
     \<le> nrows (mat_of 3 3 [[Fin 1, Fin 0, Fin 0], [Fin 0, Fin 0, Fin 0], [Fin 0, Fin 0, Fin 1]]) \<and>
   1 < ncols (mat_of 3 3 [[Fin 1, Fin 0, Fin 0], [Fin 0, Fin 0, Fin 0], [Fin 0, Fin 0, Fin 1]]) - 1 \<and>
   householder_loop [0..<1]
       (zeros2 3 3, mat_of 3 3 [[Fin 1, Fin 0, Fin 0], [Fin 0, Fin 0, Fin 0], [Fin 0, Fin 0, Fin 1]]) =
     Inr (mat_of 3 3 [[Fin 1, Fin 0, Fin 0], [Fin 0, Fin 0, Fin 0], [Fin 0, Fin 0, Fin 0]],
          mat_of 3 3 [[Fin (- 1), Fin 0, Fin 0], [Fin 0, Fin 0, Fin 0], [Fin 0, Fin 0, Fin 1]]) \<and>
   \<not> nonzero_vec (col_from (mat_of 3 3 [[Fin (- 1), Fin 0, Fin 0], [Fin 0, Fin 0, Fin 0], [Fin 0, Fin 0, Fin 1]]) 1 1) \<and>
   (\<exists>V R. householder (mat_of 3 3 [[Fin 1, Fin 0, Fin 0], [Fin 0, Fin 0, Fin 0], [Fin 0, Fin 0, Fin 1]]) = Inr (V, R) \<and>
      ent V 1 1 = NaN \<and> ent V 2 1 = NaN \<and>
      ent R 1 1 = NaN \<and> ent R 1 2 = NaN \<and> ent R 2 1 = NaN \<and> ent R 2 2 = NaN)"
proof -
  let ?A = "mat_of 3 3 [[Fin 1, Fin 0, Fin 0], [Fin 0, Fin 0, Fin 0], [Fin 0, Fin 0, Fin 1]]"
  let ?V1 = "mat_of 3 3 [[Fin 1, Fin 0, Fin 0], [Fin 0, Fin 0, Fin 0], [Fin 0, Fin 0, Fin 0]]"
  let ?R1 = "mat_of 3 3 [[Fin (- 1), Fin 0, Fin 0], [Fin 0, Fin 0, Fin 0], [Fin 0, Fin 0, Fin 1]]"
  have shape: "ncols ?A \<le> nrows ?A" and k: "1 < ncols ?A - 1" by simp_all
  have before: "householder_loop [0..<1] (zeros2 (nrows ?A) (ncols ?A), ?A) = Inr (?V1, ?R1)"
    by (simp add: zero_step_example)
  have zero: "\<not> nonzero_vec (col_from ?R1 1 1)"
    by (auto simp: nonzero_vec_def eval_nat_numeral less_Suc_eq zero_fl_def nth_Cons')
  from zero_subcolumn_gives_NaN [OF shape k before zero]
  obtain V R where "householder ?A = Inr (V, R)"
    and "\<forall>i. 1 \<le> i \<and> i < nrows ?A \<longrightarrow> ent V i 1 = NaN"
    and "\<forall>i j. 1 \<le> i \<and> i < ncols ?A \<and> 1 \<le> j \<and> j < ncols ?A \<longrightarrow> ent R i j = NaN"
    by blast
  then have "householder ?A = Inr (V, R) \<and> ent V 1 1 = NaN \<and> ent V 2 1 = NaN \<and>
      ent R 1 1 = NaN \<and> ent R 1 2 = NaN \<and> ent R 2 1 = NaN \<and> ent R 2 2 = NaN"
    by simp
  with shape k before zero show ?thesis by (simp del: ent_mat_of)
qed

section \<open>Evaluating the program on matrices written out\<close>

text \<open>
  A run on a concrete matrix is evaluated one pass of the outer loop at a time, each
  pass from arrays written as lists to arrays written as lists.
\<close>

lemma sqrt_64_25: "sqrt (64 / 25) = 8 / 5"
  by (rule real_sqrt_unique) (simp_all add: power2_eq_square)

lemma mat_of_outside: "m \<le> i \<or> n \<le> j \<Longrightarrow> ent (mat_of m n rows) i j = 0"
  by auto

lemma mat_ofI:
  assumes "nrows A = m" "ncols A = n" "length rows = m" "list_all (\<lambda>r. length r = n) rows"
    and "\<forall>i<m. \<forall>j<n. ent A i j = rows ! i ! j"
    and "\<And>i j. m \<le> i \<or> n \<le> j \<Longrightarrow> ent A i j = 0"
  shows "A = mat_of m n rows"
  unfolding mat_eq_iff
proof (intro conjI allI)
  fix i j
  show "ent A i j = ent (mat_of m n rows) i j"
  proof (cases "i < m \<and> j < n")
    case True
    with assms(3,4) have "j < length (rows ! i)" by (simp add: list_all_length)
    with True assms show ?thesis by simp
  next
    case False
    with assms(6) [of i j] show ?thesis by auto
  qed
qed (simp_all add: assms)

lemma vec_ofI:
  assumes "vlen x = length xs" "\<forall>i<length xs. vent x i = xs ! i"
    and "\<And>i. length xs \<le> i \<Longrightarrow> vent x i = 0"
  shows "x = vec_of xs"
  unfolding vec_eq_iff using assms by (auto simp: not_less)

lemma zeros2_mat_of: "zeros2 m n = mat_of m n []"
  by (simp add: mat_eq_iff)

lemma householder_step_literal:
  assumes k: "k < m" "k < n"
    and wf: "length Vout = m" "list_all (\<lambda>r. length r = n) Vout"
      "length Rout = m" "list_all (\<lambda>r. length r = n) Rout"
    and Vout: "\<forall>i<m. \<forall>j<n.
      ent (set_col_from (mat_of m n Vin) k k
            (vdiv (perturb (col_from (mat_of m n Rin) k k))
               (norm2 (perturb (col_from (mat_of m n Rin) k k))))) i j = Vout ! i ! j"
    and Rout: "\<forall>i<m. \<forall>j<n.
      ent (fold (reflect_col (mat_of m n Vout) k) [k..<n] (mat_of m n Rin)) i j = Rout ! i ! j"
  shows "householder_step k (mat_of m n Vin, mat_of m n Rin) = Inr (mat_of m n Vout, mat_of m n Rout)"
proof -
  let ?v = "vdiv (perturb (col_from (mat_of m n Rin) k k))
               (norm2 (perturb (col_from (mat_of m n Rin) k k)))"
  have V: "set_col_from (mat_of m n Vin) k k ?v = mat_of m n Vout"
  proof (rule mat_ofI)
    fix i j :: nat
    assume "m \<le> i \<or> n \<le> j"
    with k show "ent (set_col_from (mat_of m n Vin) k k ?v) i j = 0"
      by (auto simp del: ent_mat_of simp add: mat_of_outside)
  next
    show "\<forall>i<m. \<forall>j<n. ent (set_col_from (mat_of m n Vin) k k ?v) i j = Vout ! i ! j"
      by (rule Vout)
  qed (simp_all add: wf)
  have R: "fold (reflect_col (mat_of m n Vout) k) [k..<n] (mat_of m n Rin) = mat_of m n Rout"
  proof (rule mat_ofI)
    fix i j :: nat
    assume "m \<le> i \<or> n \<le> j"
    then show "ent (fold (reflect_col (mat_of m n Vout) k) [k..<n] (mat_of m n Rin)) i j = 0"
      by (auto simp del: ent_mat_of simp add: mat_of_outside fold_reflect_col_ent)
  next
    show "\<forall>i<m. \<forall>j<n.
        ent (fold (reflect_col (mat_of m n Vout) k) [k..<n] (mat_of m n Rin)) i j = Rout ! i ! j"
      by (rule Rout)
  qed (simp_all add: wf)
  from k show ?thesis
    by (simp add: householder_step_Inr V R del: ent_mat_of)
qed


lemma unit_vec_literal:
  "k < m \<Longrightarrow> unit_vec m k = Inr (vec_of ((replicate m 0)[k := 1]))"
  by (auto simp: unit_vec_def Let_def vec_eq_iff nth_list_update)

lemma compute_Q_loop_ent:
  assumes "\<forall>k\<in>set ks. k < nrows V \<and>
             apply_Q V (vec_of ((replicate (nrows V) 0)[k := 1])) = Inr (y k)"
  shows "\<exists>Q. compute_Q_loop V ks Q0 = Inr Q \<and> nrows Q = nrows Q0 \<and> ncols Q = ncols Q0 \<and>
           (\<forall>i c. ent Q i c =
              (if c \<in> set ks \<and> i < nrows Q0 then vent (y c) i else ent Q0 i c))"
  using assms
proof (induct ks arbitrary: Q0 rule: rev_induct)
  case Nil
  show ?case by simp
next
  case (snoc k ks)
  then obtain Q where Q: "compute_Q_loop V ks Q0 = Inr Q" "nrows Q = nrows Q0" "ncols Q = ncols Q0"
    "\<forall>i c. ent Q i c = (if c \<in> set ks \<and> i < nrows Q0 then vent (y c) i else ent Q0 i c)"
    by fastforce
  from snoc.prems have k: "k < nrows V"
    and yk: "apply_Q V (vec_of ((replicate (nrows V) 0)[k := 1])) = Inr (y k)"
    by simp_all
  have step: "compute_Q_step V k Q = Inr (set_col_from Q 0 k (y k))"
    by (simp add: compute_Q_step_def unit_vec_literal [OF k] yk)
  have app: "compute_Q_loop V (ks @ [k]) Q0 = Inr (set_col_from Q 0 k (y k))"
    using Q(1) step by (induct ks arbitrary: Q0) (simp_all split: sum.splits)
  show ?case
    unfolding app using Q(2-4) by auto
qed

lemma compute_Q_ent:
  assumes "ncols V \<le> nrows V"
    and "\<forall>k<ncols V. apply_Q V (vec_of ((replicate (nrows V) 0)[k := 1])) = Inr (y k)"
  shows "\<exists>Q. compute_Q V = Inr Q \<and> nrows Q = nrows V \<and> ncols Q = ncols V \<and>
           (\<forall>i c. ent Q i c = (if c < ncols V \<and> i < nrows V then vent (y c) i else 0))"
proof -
  from assms have "\<forall>k\<in>set [0..<ncols V]. k < nrows V \<and>
      apply_Q V (vec_of ((replicate (nrows V) 0)[k := 1])) = Inr (y k)"
    by auto
  from compute_Q_loop_ent [OF this, of "zeros2 (nrows V) (ncols V)"]
  obtain Q where "compute_Q_loop V [0..<ncols V] (zeros2 (nrows V) (ncols V)) = Inr Q"
    "nrows Q = nrows V" "ncols Q = ncols V"
    "\<forall>i c. ent Q i c = (if c \<in> set [0..<ncols V] \<and> i < nrows (zeros2 (nrows V) (ncols V))
        then vent (y c) i else ent (zeros2 (nrows V) (ncols V)) i c)"
    by auto
  then show ?thesis by (auto simp: compute_Q_def)
qed

lemma compute_Q_literal:
  assumes "n \<le> m" "length Qrows = m" "list_all (\<lambda>r. length r = n) Qrows"
    and "\<forall>k<n. apply_Q (mat_of m n Vrows) (vec_of ((replicate m 0)[k := 1])) =
           Inr (vec_of (map (\<lambda>r. r ! k) Qrows))"
  shows "compute_Q (mat_of m n Vrows) = Inr (mat_of m n Qrows)"
proof -
  from compute_Q_ent [of "mat_of m n Vrows" "\<lambda>k. vec_of (map (\<lambda>r. r ! k) Qrows)"] assms
  obtain Q where Q: "compute_Q (mat_of m n Vrows) = Inr Q" "nrows Q = m" "ncols Q = n"
    "\<forall>i c. ent Q i c = (if c < n \<and> i < m then vent (vec_of (map (\<lambda>r. r ! c) Qrows)) i else 0)"
    by auto
  have "Q = mat_of m n Qrows"
    by (rule mat_ofI) (use Q assms in \<open>auto simp: list_all_length\<close>)
  with Q(1) show ?thesis by simp
qed

lemmas eval_simps = fold_reflect_col_ent dot_def norm2_def All_less_Suc eval_nat_numeral numeral_fl
  zero_fl_def one_fl_def

lemma upt_2: "[0..<2] = [0, Suc 0]"
  by (simp add: eval_nat_numeral)

lemma rows_upto_mat_of: "rows_upto (mat_of n n rows) n = mat_of n n rows"
  by (simp add: mat_eq_iff)

lemma rot_step0:
  "householder_step 0
     (mat_of 3 3 [],
      mat_of 3 3 [[Fin (7/25), Fin (- (24/25)), Fin 0], [Fin (24/25), Fin (7/25), Fin 0], [Fin 0, Fin 0, Fin 1]]) =
   Inr (mat_of 3 3 [[Fin (4/5), Fin 0, Fin 0], [Fin (3/5), Fin 0, Fin 0], [Fin 0, Fin 0, Fin 0]],
        mat_of 3 3 [[Fin (- 1), Fin 0, Fin 0], [Fin 0, Fin 1, Fin 0], [Fin 0, Fin 0, Fin 1]])"
  by (rule householder_step_literal) (simp_all add: eval_simps sqrt_64_25)

lemma rot_step1:
  "householder_step 1
     (mat_of 3 3 [[Fin (4/5), Fin 0, Fin 0], [Fin (3/5), Fin 0, Fin 0], [Fin 0, Fin 0, Fin 0]],
      mat_of 3 3 [[Fin (- 1), Fin 0, Fin 0], [Fin 0, Fin 1, Fin 0], [Fin 0, Fin 0, Fin 1]]) =
   Inr (mat_of 3 3 [[Fin (4/5), Fin 0, Fin 0], [Fin (3/5), Fin 1, Fin 0], [Fin 0, Fin 0, Fin 0]],
        mat_of 3 3 [[Fin (- 1), Fin 0, Fin 0], [Fin 0, Fin (- 1), Fin 0], [Fin 0, Fin 0, Fin 1]])"
  by (rule householder_step_literal) (simp_all add: eval_simps sqrt_64_25)

lemma rot_householder:
  "householder (mat_of 3 3 [[Fin (7/25), Fin (- (24/25)), Fin 0], [Fin (24/25), Fin (7/25), Fin 0], [Fin 0, Fin 0, Fin 1]]) =
   Inr (mat_of 3 3 [[Fin (4/5), Fin 0, Fin 0], [Fin (3/5), Fin 1, Fin 0], [Fin 0, Fin 0, Fin 0]],
        mat_of 3 3 [[Fin (- 1), Fin 0, Fin 0], [Fin 0, Fin (- 1), Fin 0], [Fin 0, Fin 0, Fin 1]])"
  using rot_step0 rot_step1
  by (simp add: householder_def Let_def upt_2 rows_upto_mat_of zeros2_mat_of del: ent_mat_of)

lemma rot_compute_Q:
  "compute_Q (mat_of 3 3 [[Fin (4/5), Fin 0, Fin 0], [Fin (3/5), Fin 1, Fin 0], [Fin 0, Fin 0, Fin 0]]) =
   Inr (mat_of 3 3 [[Fin (- (7/25)), Fin (24/25), Fin 0], [Fin (- (24/25)), Fin (- (7/25)), Fin 0], [Fin 0, Fin 0, Fin 1]])"
  apply (rule compute_Q_literal)
  apply (simp_all add: All_less_Suc eval_nat_numeral apply_Q_def reflect_tail_def)
  apply (intro conjI vec_ofI)
  apply (simp_all add: eval_simps)
  done

lemma bug_step0:
  "householder_step 0
     (mat_of 3 3 [],
      mat_of 3 3 [[Fin 0, Fin 1, Fin 0], [Fin 1, Fin (- 1), Fin 0], [Fin 0, Fin 0, Fin 1]]) =
   Inr (mat_of 3 3 [[Fin 0, Fin 0, Fin 0], [Fin 1, Fin 0, Fin 0], [Fin 0, Fin 0, Fin 0]],
        mat_of 3 3 [[Fin 0, Fin 1, Fin 0], [Fin (- 1), Fin 1, Fin 0], [Fin 0, Fin 0, Fin 1]])"
  by (rule householder_step_literal) (simp_all add: eval_simps)

lemma bug_step1:
  "householder_step 1
     (mat_of 3 3 [[Fin 0, Fin 0, Fin 0], [Fin 1, Fin 0, Fin 0], [Fin 0, Fin 0, Fin 0]],
      mat_of 3 3 [[Fin 0, Fin 1, Fin 0], [Fin (- 1), Fin 1, Fin 0], [Fin 0, Fin 0, Fin 1]]) =
   Inr (mat_of 3 3 [[Fin 0, Fin 0, Fin 0], [Fin 1, Fin 1, Fin 0], [Fin 0, Fin 0, Fin 0]],
        mat_of 3 3 [[Fin 0, Fin 1, Fin 0], [Fin (- 1), Fin (- 1), Fin 0], [Fin 0, Fin 0, Fin 1]])"
  by (rule householder_step_literal) (simp_all add: eval_simps)

lemma bug_householder:
  "householder (mat_of 3 3 [[Fin 0, Fin 1, Fin 0], [Fin 1, Fin (- 1), Fin 0], [Fin 0, Fin 0, Fin 1]]) =
   Inr (mat_of 3 3 [[Fin 0, Fin 0, Fin 0], [Fin 1, Fin 1, Fin 0], [Fin 0, Fin 0, Fin 0]],
        mat_of 3 3 [[Fin 0, Fin 1, Fin 0], [Fin (- 1), Fin (- 1), Fin 0], [Fin 0, Fin 0, Fin 1]])"
  using bug_step0 bug_step1
  by (simp add: householder_def Let_def upt_2 rows_upto_mat_of zeros2_mat_of del: ent_mat_of)

lemma bug_compute_Q:
  "compute_Q (mat_of 3 3 [[Fin 0, Fin 0, Fin 0], [Fin 1, Fin 1, Fin 0], [Fin 0, Fin 0, Fin 0]]) =
   Inr (mat_of 3 3 [[Fin 1, Fin 0, Fin 0], [Fin 0, Fin 1, Fin 0], [Fin 0, Fin 0, Fin 1]])"
  apply (rule compute_Q_literal)
  apply (simp_all add: All_less_Suc eval_nat_numeral apply_Q_def reflect_tail_def)
  apply (intro conjI vec_ofI)
  apply (simp_all add: eval_simps)
  done

lemma eye_step0:
  "householder_step 0
     (mat_of 3 3 [],
      mat_of 3 3 [[Fin 1, Fin 0, Fin 0], [Fin 0, Fin 1, Fin 0], [Fin 0, Fin 0, Fin 1]]) =
   Inr (mat_of 3 3 [[Fin 1, Fin 0, Fin 0], [Fin 0, Fin 0, Fin 0], [Fin 0, Fin 0, Fin 0]],
        mat_of 3 3 [[Fin (- 1), Fin 0, Fin 0], [Fin 0, Fin 1, Fin 0], [Fin 0, Fin 0, Fin 1]])"
  by (rule householder_step_literal) (simp_all add: eval_simps)

lemma eye_step1:
  "householder_step 1
     (mat_of 3 3 [[Fin 1, Fin 0, Fin 0], [Fin 0, Fin 0, Fin 0], [Fin 0, Fin 0, Fin 0]],
      mat_of 3 3 [[Fin (- 1), Fin 0, Fin 0], [Fin 0, Fin 1, Fin 0], [Fin 0, Fin 0, Fin 1]]) =
   Inr (mat_of 3 3 [[Fin 1, Fin 0, Fin 0], [Fin 0, Fin 1, Fin 0], [Fin 0, Fin 0, Fin 0]],
        mat_of 3 3 [[Fin (- 1), Fin 0, Fin 0], [Fin 0, Fin (- 1), Fin 0], [Fin 0, Fin 0, Fin 1]])"
  by (rule householder_step_literal) (simp_all add: eval_simps)

lemma eye_householder:
  "householder (mat_of 3 3 [[Fin 1, Fin 0, Fin 0], [Fin 0, Fin 1, Fin 0], [Fin 0, Fin 0, Fin 1]]) =
   Inr (mat_of 3 3 [[Fin 1, Fin 0, Fin 0], [Fin 0, Fin 1, Fin 0], [Fin 0, Fin 0, Fin 0]],
        mat_of 3 3 [[Fin (- 1), Fin 0, Fin 0], [Fin 0, Fin (- 1), Fin 0], [Fin 0, Fin 0, Fin 1]])"
  using eye_step0 eye_step1
  by (simp add: householder_def Let_def upt_2 rows_upto_mat_of zeros2_mat_of del: ent_mat_of)

lemma eye_compute_Q:
  "compute_Q (mat_of 3 3 [[Fin 1, Fin 0, Fin 0], [Fin 0, Fin 1, Fin 0], [Fin 0, Fin 0, Fin 0]]) =
   Inr (mat_of 3 3 [[Fin (- 1), Fin 0, Fin 0], [Fin 0, Fin (- 1), Fin 0], [Fin 0, Fin 0, Fin 1]])"
  apply (rule compute_Q_literal)
  apply (simp_all add: All_less_Suc eval_nat_numeral apply_Q_def reflect_tail_def)
  apply (intro conjI vec_ofI)
  apply (simp_all add: eval_simps)
  done

section \<open>The product of the factors\<close>

text \<open>
  C2. Every sub-column extracted from the matrix with rows (0, 1, 0), (1, -1, 0),
  (0, 0, 1) is nonzero, yet \<open>Q\<close> times \<open>R\<close> has second row (-1, -1, 0) where the matrix has
  (1, -1, 0). The first sub-column (0, 1, 0) has leading entry 0, \<open>np.sign\<close> gives 0 there,
  and the reflection built from the unperturbed column leaves -1 below the diagonal of
  column 0; the next pass updates columns 1 and 2 only, so the product no longer matches.
\<close>

theorem QR_differs_from_A:
  "all_subcolumns_nonzero (mat_of 3 3 [[Fin 0, Fin 1, Fin 0], [Fin 1, Fin (- 1), Fin 0], [Fin 0, Fin 0, Fin 1]]) \<and>
   QR_of (mat_of 3 3 [[Fin 0, Fin 1, Fin 0], [Fin 1, Fin (- 1), Fin 0], [Fin 0, Fin 0, Fin 1]]) =
     Inr [[Fin 0, Fin 1, Fin 0], [Fin (- 1), Fin (- 1), Fin 0], [Fin 0, Fin 0, Fin 1]]"
proof
  show "all_subcolumns_nonzero (mat_of 3 3 [[Fin 0, Fin 1, Fin 0], [Fin 1, Fin (- 1), Fin 0], [Fin 0, Fin 0, Fin 1]])"
    using bug_step0 bug_step1
    by (simp add: all_subcolumns_nonzero_def upt_2 zeros2_mat_of nonzero_vec_def Ex_less_Suc
        eval_nat_numeral zero_fl_def del: ent_mat_of)
       (simp add: eval_nat_numeral)
  show "QR_of (mat_of 3 3 [[Fin 0, Fin 1, Fin 0], [Fin 1, Fin (- 1), Fin 0], [Fin 0, Fin 0, Fin 1]]) =
     Inr [[Fin 0, Fin 1, Fin 0], [Fin (- 1), Fin (- 1), Fin 0], [Fin 0, Fin 0, Fin 1]]"
    by (simp add: QR_of_def bug_householder bug_compute_Q del: ent_mat_of)
       (simp add: to_rows_def matmul_def eval_nat_numeral zero_fl_def)
qed

section \<open>The identity matrix\<close>

text \<open>
  C7 (as the code has it). On the identity matrix of order 3, \<open>householder\<close> returns
  \<open>V\<close> with ones at (0, 0) and (1, 1) and zeros elsewhere, and \<open>R\<close> the diagonal matrix
  with entries -1, -1, 1; \<open>apply_Q\<close> with this \<open>V\<close> maps every vector (a, b, c) of reals to
  (-a, -b, c).
\<close>

theorem identity_factorization:
  "householder (mat_of 3 3 [[Fin 1, Fin 0, Fin 0], [Fin 0, Fin 1, Fin 0], [Fin 0, Fin 0, Fin 1]]) =
     Inr (mat_of 3 3 [[Fin 1, Fin 0, Fin 0], [Fin 0, Fin 1, Fin 0], [Fin 0, Fin 0, Fin 0]],
          mat_of 3 3 [[Fin (- 1), Fin 0, Fin 0], [Fin 0, Fin (- 1), Fin 0], [Fin 0, Fin 0, Fin 1]]) \<and>
   apply_Q (mat_of 3 3 [[Fin 1, Fin 0, Fin 0], [Fin 0, Fin 1, Fin 0], [Fin 0, Fin 0, Fin 0]])
     (vec_of [Fin a, Fin b, Fin c]) = Inr (vec_of [Fin (- a), Fin (- b), Fin c])"
proof
  show "apply_Q (mat_of 3 3 [[Fin 1, Fin 0, Fin 0], [Fin 0, Fin 1, Fin 0], [Fin 0, Fin 0, Fin 0]])
     (vec_of [Fin a, Fin b, Fin c]) = Inr (vec_of [Fin (- a), Fin (- b), Fin c])"
    apply (simp add: apply_Q_def reflect_tail_def eval_nat_numeral)
    apply (rule vec_ofI)
    apply (simp_all add: eval_simps)
    done
qed (rule eye_householder)

text \<open>
  C7 as stated fails: \<open>R\<close> is not the identity, \<open>V\<close> is not zero, and the vector
  (1, 2, 3) comes back as (-1, -2, 3).
\<close>

theorem identity_is_reflected:
  "householder_rows (mat_of 3 3 [[Fin 1, Fin 0, Fin 0], [Fin 0, Fin 1, Fin 0], [Fin 0, Fin 0, Fin 1]]) =
     Inr ([[Fin 1, Fin 0, Fin 0], [Fin 0, Fin 1, Fin 0], [Fin 0, Fin 0, Fin 0]],
          [[Fin (- 1), Fin 0, Fin 0], [Fin 0, Fin (- 1), Fin 0], [Fin 0, Fin 0, Fin 1]]) \<and>
   apply_Q_of (mat_of 3 3 [[Fin 1, Fin 0, Fin 0], [Fin 0, Fin 1, Fin 0], [Fin 0, Fin 0, Fin 1]])
     (vec_of [Fin 1, Fin 2, Fin 3]) = Inr [Fin (- 1), Fin (- 2), Fin 3]"
proof
  show "householder_rows (mat_of 3 3 [[Fin 1, Fin 0, Fin 0], [Fin 0, Fin 1, Fin 0], [Fin 0, Fin 0, Fin 1]]) =
     Inr ([[Fin 1, Fin 0, Fin 0], [Fin 0, Fin 1, Fin 0], [Fin 0, Fin 0, Fin 0]],
          [[Fin (- 1), Fin 0, Fin 0], [Fin 0, Fin (- 1), Fin 0], [Fin 0, Fin 0, Fin 1]])"
    by (simp add: householder_rows_def eye_householder del: ent_mat_of)
       (simp add: to_rows_def eval_nat_numeral)
  have "apply_Q (mat_of 3 3 [[Fin 1, Fin 0, Fin 0], [Fin 0, Fin 1, Fin 0], [Fin 0, Fin 0, Fin 0]])
     (vec_of [Fin 1, Fin 2, Fin 3]) = Inr (vec_of [Fin (- 1), Fin (- 2), Fin 3])"
    apply (simp add: apply_Q_def reflect_tail_def eval_nat_numeral)
    apply (rule vec_ofI)
    apply (simp_all add: eval_simps)
    done
  then show "apply_Q_of (mat_of 3 3 [[Fin 1, Fin 0, Fin 0], [Fin 0, Fin 1, Fin 0], [Fin 0, Fin 0, Fin 1]])
     (vec_of [Fin 1, Fin 2, Fin 3]) = Inr [Fin (- 1), Fin (- 2), Fin 3]"
    unfolding apply_Q_of_def eye_householder
    by (simp add: to_list_def eval_nat_numeral)
qed

section \<open>Exact arithmetic on finite arrays\<close>

lemma re_zero_one [simp]: "re 0 = 0" "re 1 = 1" "is_fin 0" "is_fin 1"
  by (simp_all add: zero_fl_def one_fl_def)

lemma is_fin_conv: "is_fin a \<longleftrightarrow> (\<exists>r. a = Fin r)"
  by (cases a) simp_all

lemma fin_vecD: "fin_vec x \<Longrightarrow> i < vlen x \<Longrightarrow> \<exists>a. vent x i = Fin a"
  by (simp add: fin_vec_def is_fin_conv)

lemma fin_matD: "fin_mat A \<Longrightarrow> i < nrows A \<Longrightarrow> j < ncols A \<Longrightarrow> \<exists>a. ent A i j = Fin a"
  by (simp add: fin_mat_def is_fin_conv)

lemma sum_shift: "(\<Sum>i<m - k. f (k + i)) = (\<Sum>l\<in>{k..<m}. f l)" for f :: "nat \<Rightarrow> 'a::comm_monoid_add"
proof (cases "k \<le> m")
  case True
  have "(\<Sum>l\<in>{k..<m}. f l) = (\<Sum>l\<in>{0 + k..<(m - k) + k}. f l)" using True by simp
  also have "\<dots> = (\<Sum>i\<in>{0..<m - k}. f (i + k))" by (rule sum.shift_bounds_nat_ivl)
  finally show ?thesis by (simp add: lessThan_atLeast0 add.commute)
next
  case False
  then show ?thesis by simp
qed

text \<open>The dot product of a column of a finite matrix with the tail of a finite vector.\<close>

lemma dot_col_tail_fin:
  assumes "fin_mat V" "c < ncols V" "fin_vec x" "vlen x = nrows V"
  shows "dot (col_from V k c) (tail_from x k) =
           Fin (\<Sum>l\<in>{k..<vlen x}. re (ent V l c) * re (vent x l))"
proof -
  have "dot (col_from V k c) (tail_from x k) = (\<Sum>l\<in>{k..<vlen x}. ent V l c * vent x l)"
    using assms(4) by (simp add: dot_def sum_shift [of "\<lambda>l. ent V l c * vent x l"])
  also have "\<dots> = (\<Sum>l\<in>{k..<vlen x}. Fin (re (ent V l c) * re (vent x l)))"
  proof (rule sum.cong)
    fix l assume "l \<in> {k..<vlen x}"
    then have l: "l < vlen x" by simp
    from fin_matD [OF assms(1) _ assms(2), of l] fin_vecD [OF assms(3) l] l assms(4)
    obtain a b where "ent V l c = Fin a" "vent x l = Fin b" by auto
    then show "ent V l c * vent x l = Fin (re (ent V l c) * re (vent x l))"
      by simp
  qed simp
  finally show ?thesis by simp
qed

lemma reflect_tail_fin:
  assumes V: "fin_mat V" "k < ncols V" and x: "fin_vec x" "vlen x = nrows V"
  shows "\<exists>y. reflect_tail V k x = Inr y \<and> vlen y = vlen x \<and> fin_vec y \<and>
           (\<forall>i<vlen x. re (vent y i) =
              (if k \<le> i
               then re (vent x i) -
                    2 * (\<Sum>l\<in>{k..<vlen x}. re (ent V l k) * re (vent x l)) * re (ent V i k)
               else re (vent x i)))"
proof -
  let ?d = "\<Sum>l\<in>{k..<vlen x}. re (ent V l k) * re (vent x l)"
  let ?y = "set_tail x k (vsub (tail_from x k)
              (smul (2 * dot (col_from V k k) (tail_from x k)) (col_from V k k)))"
  have run: "reflect_tail V k x = Inr ?y"
    using x(2) by (simp add: reflect_tail_def)
  have ent: "vent ?y i =
      Fin (if k \<le> i then re (vent x i) - 2 * ?d * re (ent V i k) else re (vent x i))"
    if "i < vlen x" for i
  proof -
    from fin_matD [OF V(1) _ V(2), of i] fin_vecD [OF x(1) that] that x(2)
    obtain a b where ab: "ent V i k = Fin a" "vent x i = Fin b" by auto
    show ?thesis
      using that by (simp add: dot_col_tail_fin [OF V x] numeral_fl ab)
  qed
  have "fin_vec ?y"
    unfolding fin_vec_def
  proof (intro allI impI)
    fix i assume "i < vlen ?y"
    then have "i < vlen x" by simp
    from ent [OF this] show "is_fin (vent ?y i)" by (simp only: is_fin.simps)
  qed
  moreover have "\<forall>i<vlen x. re (vent ?y i) =
      (if k \<le> i then re (vent x i) - 2 * ?d * re (ent V i k) else re (vent x i))"
  proof (intro allI impI)
    fix i assume "i < vlen x"
    from ent [OF this] show "re (vent ?y i) =
      (if k \<le> i then re (vent x i) - 2 * ?d * re (ent V i k) else re (vent x i))"
      by (simp only: re.simps)
  qed
  moreover have "vlen ?y = vlen x" by simp
  ultimately show ?thesis using run by blast
qed


text \<open>One reflection is linear: it maps a combination of vectors to the combination of their images.\<close>

lemma reflect_superpose:
  fixes a :: "nat \<Rightarrow> real" and u :: "nat \<Rightarrow> nat \<Rightarrow> real"
  assumes "\<And>i. i < m \<Longrightarrow> x i = (\<Sum>c<n. a c * u c i)" and "i < m"
  shows "x i - 2 * (\<Sum>l\<in>{k..<m}. v l * x l) * v i =
         (\<Sum>c<n. a c * (u c i - 2 * (\<Sum>l\<in>{k..<m}. v l * u c l) * v i))"
proof -
  have "(\<Sum>l\<in>{k..<m}. v l * x l) = (\<Sum>l\<in>{k..<m}. \<Sum>c<n. a c * (v l * u c l))"
    by (rule sum.cong) (simp_all add: assms(1) sum_distrib_left mult.left_commute)
  also have "\<dots> = (\<Sum>c<n. \<Sum>l\<in>{k..<m}. a c * (v l * u c l))"
    by (rule sum.swap)
  also have "\<dots> = (\<Sum>c<n. a c * (\<Sum>l\<in>{k..<m}. v l * u c l))"
    by (simp add: sum_distrib_left)
  finally have d: "(\<Sum>l\<in>{k..<m}. v l * x l) = (\<Sum>c<n. a c * (\<Sum>l\<in>{k..<m}. v l * u c l))" .
  show ?thesis
    unfolding d assms(1) [OF assms(2)]
    by (simp add: algebra_simps sum_subtractf sum_distrib_left sum_distrib_right)
qed

lemma apply_Q_loop_superpose:
  fixes u :: "nat \<Rightarrow> vec" and a :: "nat \<Rightarrow> real" and n :: nat
  assumes V: "fin_mat V"
  shows "\<forall>k\<in>set ks. k < ncols V \<Longrightarrow> fin_vec x \<Longrightarrow> vlen x = nrows V \<Longrightarrow>
         \<forall>c<n. fin_vec (u c) \<and> vlen (u c) = nrows V \<Longrightarrow>
         \<forall>i<nrows V. re (vent x i) = (\<Sum>c<n. a c * re (vent (u c) i)) \<Longrightarrow>
         \<exists>y w. apply_Q_loop V ks x = Inr y \<and> vlen y = nrows V \<and> fin_vec y \<and>
           (\<forall>c<n. apply_Q_loop V ks (u c) = Inr (w c) \<and> fin_vec (w c) \<and> vlen (w c) = nrows V) \<and>
           (\<forall>i<nrows V. re (vent y i) = (\<Sum>c<n. a c * re (vent (w c) i)))"
proof (induct ks arbitrary: x u)
  case Nil
  then show ?case by auto
next
  case (Cons k ks)
  let ?m = "nrows V"
  let ?R = "\<lambda>z z'. reflect_tail V k z = Inr z' \<and> vlen z' = ?m \<and> fin_vec z' \<and>
     (\<forall>i<?m. re (vent z' i) =
        (if k \<le> i
         then re (vent z i) - 2 * (\<Sum>l\<in>{k..<?m}. re (ent V l k) * re (vent z l)) * re (ent V i k)
         else re (vent z i)))"
  from Cons.prems have k: "k < ncols V" by simp
  from reflect_tail_fin [OF V k Cons.prems(2,3)] Cons.prems(3)
  obtain x1 where x1: "?R x x1" by auto
  have ex: "\<forall>c. \<exists>z'. c < n \<longrightarrow> ?R (u c) z'"
  proof
    fix c
    show "\<exists>z'. c < n \<longrightarrow> ?R (u c) z'"
    proof (cases "c < n")
      case True
      with Cons.prems(4) have "fin_vec (u c)" "vlen (u c) = ?m" by simp_all
      from reflect_tail_fin [OF V k this] this(2) show ?thesis by auto
    qed simp
  qed
  from choice [OF ex] obtain u1 where "\<forall>c. c < n \<longrightarrow> ?R (u c) (u1 c)" ..
  then have u1: "\<And>c. c < n \<Longrightarrow> ?R (u c) (u1 c)" by blast
  have comb: "\<forall>i<?m. re (vent x1 i) = (\<Sum>c<n. a c * re (vent (u1 c) i))"
  proof (intro allI impI)
    fix i assume i: "i < ?m"
    show "re (vent x1 i) = (\<Sum>c<n. a c * re (vent (u1 c) i))"
    proof (cases "k \<le> i")
      case True
      have "re (vent x1 i) =
          re (vent x i) - 2 * (\<Sum>l\<in>{k..<?m}. re (ent V l k) * re (vent x l)) * re (ent V i k)"
        using x1 i True by simp
      also have "\<dots> = (\<Sum>c<n. a c * (re (vent (u c) i) -
          2 * (\<Sum>l\<in>{k..<?m}. re (ent V l k) * re (vent (u c) l)) * re (ent V i k)))"
        by (rule reflect_superpose [where m = ?m and x = "\<lambda>i. re (vent x i)"
              and u = "\<lambda>c i. re (vent (u c) i)" and v = "\<lambda>l. re (ent V l k)"])
           (use Cons.prems(5) i in simp_all)
      also have "\<dots> = (\<Sum>c<n. a c * re (vent (u1 c) i))"
        by (rule sum.cong) (use u1 i True in simp_all)
      finally show ?thesis .
    next
      case False
      have "re (vent x1 i) = re (vent x i)" using x1 i False by simp
      also have "\<dots> = (\<Sum>c<n. a c * re (vent (u c) i))" using Cons.prems(5) i by simp
      also have "\<dots> = (\<Sum>c<n. a c * re (vent (u1 c) i))"
        by (rule sum.cong) (use u1 i False in simp_all)
      finally show ?thesis .
    qed
  qed
  have "\<exists>y w. apply_Q_loop V ks x1 = Inr y \<and> vlen y = ?m \<and> fin_vec y \<and>
           (\<forall>c<n. apply_Q_loop V ks (u1 c) = Inr (w c) \<and> fin_vec (w c) \<and> vlen (w c) = ?m) \<and>
           (\<forall>i<?m. re (vent y i) = (\<Sum>c<n. a c * re (vent (w c) i)))"
    by (rule Cons.hyps) (use Cons.prems(1) x1 u1 comb in auto)
  then obtain y w where yw: "apply_Q_loop V ks x1 = Inr y" "vlen y = ?m" "fin_vec y"
    "\<forall>c<n. apply_Q_loop V ks (u1 c) = Inr (w c) \<and> fin_vec (w c) \<and> vlen (w c) = ?m"
    "\<forall>i<?m. re (vent y i) = (\<Sum>c<n. a c * re (vent (w c) i))"
    by blast
  have "apply_Q_loop V (k # ks) x = Inr y" using x1 yw(1) by simp
  moreover have "\<forall>c<n. apply_Q_loop V (k # ks) (u c) = Inr (w c) \<and> fin_vec (w c) \<and> vlen (w c) = ?m"
    using u1 yw(4) by simp
  ultimately show ?case using yw(2,3,5) by blast
qed


lemma unit_literal_props:
  assumes "c < m"
  shows "fin_vec (vec_of ((replicate m 0)[c := 1]))"
    and "vlen (vec_of ((replicate m 0)[c := 1])) = m"
    and "i < m \<Longrightarrow> re (vent (vec_of ((replicate m 0)[c := 1])) i) = (if i = c then 1 else 0)"
  using assms by (simp_all add: fin_vec_def nth_list_update)

text \<open>
  \<open>apply_Q\<close> on a vector is the product of the matrix of \<open>compute_Q\<close> with it: the
  vector is a combination of unit vectors, and the columns of that matrix are their images.
\<close>

lemma apply_Q_matvec:
  assumes V: "fin_mat V" and sq: "nrows V = ncols V" and x: "fin_vec x" "vlen x = nrows V"
  shows "\<exists>y Q. apply_Q V x = Inr y \<and> compute_Q V = Inr Q \<and> vlen y = nrows V \<and>
           nrows Q = nrows V \<and> ncols Q = nrows V \<and> (\<forall>i<nrows V. vent y i = vent (matvec Q x) i)"
proof -
  let ?m = "nrows V"
  let ?e = "\<lambda>c. vec_of ((replicate ?m 0)[c := 1])"
  let ?a = "\<lambda>c. re (vent x c)"
  have e: "\<forall>c<?m. fin_vec (?e c) \<and> vlen (?e c) = ?m"
    by (simp add: unit_literal_props)
  have comb: "\<forall>i<?m. re (vent x i) = (\<Sum>c<?m. ?a c * re (vent (?e c) i))"
  proof (intro allI impI)
    fix i assume i: "i < ?m"
    have "(\<Sum>c<?m. ?a c * re (vent (?e c) i)) = (\<Sum>c<?m. if c = i then ?a c else 0)"
      by (rule sum.cong) (use i in \<open>auto simp: unit_literal_props(3)\<close>)
    also have "\<dots> = ?a i" using i by simp
    finally show "re (vent x i) = (\<Sum>c<?m. ?a c * re (vent (?e c) i))" by simp
  qed
  have "\<forall>k\<in>set (rev [0..<ncols V]). k < ncols V" by simp
  from apply_Q_loop_superpose [OF V this x e comb]
  obtain y w where y: "apply_Q V x = Inr y" "vlen y = ?m" "fin_vec y"
    and w: "\<forall>c<?m. apply_Q V (?e c) = Inr (w c) \<and> fin_vec (w c) \<and> vlen (w c) = ?m"
    and yw: "\<forall>i<?m. re (vent y i) = (\<Sum>c<?m. ?a c * re (vent (w c) i))"
    unfolding apply_Q_def by blast
  from w sq have "\<forall>k<ncols V. apply_Q V (?e k) = Inr (w k)" by simp
  from compute_Q_ent [OF _ this] sq
  obtain Q where Q: "compute_Q V = Inr Q" "nrows Q = ?m" "ncols Q = ?m"
    "\<forall>i c. ent Q i c = (if c < ?m \<and> i < ?m then vent (w c) i else 0)"
    by auto
  have "vent y i = vent (matvec Q x) i" if i: "i < ?m" for i
  proof -
    have "vent (matvec Q x) i = (\<Sum>c<?m. vent (w c) i * vent x c)"
      unfolding matvec_def using Q i by simp
    also have "\<dots> = (\<Sum>c<?m. Fin (?a c * re (vent (w c) i)))"
    proof (rule sum.cong)
      fix c assume "c \<in> {..<?m}"
      then have c: "c < ?m" by simp
      with w i fin_vecD [of "w c" i] obtain r where "vent (w c) i = Fin r" by auto
      moreover from fin_vecD [OF x(1), of c] c x(2) obtain t where "vent x c = Fin t" by auto
      ultimately show "vent (w c) i * vent x c = Fin (?a c * re (vent (w c) i))" by simp
    qed simp
    also have "\<dots> = Fin (re (vent y i))" using yw i by simp
    also have "\<dots> = vent y i"
      using fin_vecD [OF y(3), of i] i y(2) by auto
    finally show ?thesis by simp
  qed
  with y(1,2) Q(1,2,3) show ?thesis by blast
qed

section \<open>\<open>apply_Q\<close> is the action of \<open>Q\<close>\<close>

text \<open>
  C1 (as the code has it). For every square \<open>V\<close> with finite entries and every finite
  vector \<open>x\<close> of matching length, \<open>apply_Q V x\<close> returns the product of the matrix built by
  \<open>compute_Q V\<close> with \<open>x\<close>: the action of \<open>Q\<close>, not of its transpose.
\<close>

theorem apply_Q_is_Q:
  assumes V: "fin_mat V" and sq: "nrows V = ncols V" and x: "fin_vec x" "vlen x = nrows V"
  shows "\<exists>y Q. apply_Q V x = Inr y \<and> compute_Q V = Inr Q \<and>
           to_list y = to_list (matvec Q x)"
proof -
  from apply_Q_matvec [OF V sq x]
  obtain y Q where run: "apply_Q V x = Inr y" "compute_Q V = Inr Q"
    and len: "vlen y = nrows V" "nrows Q = nrows V"
    and ent: "\<forall>i<nrows V. vent y i = vent (matvec Q x) i"
    by blast
  from len ent have "to_list y = to_list (matvec Q x)"
    by (simp add: to_list_def matvec_def)
  with run show ?thesis by blast
qed

text \<open>
  C1 as stated fails. For the rotation matrix with rows (7/25, -24/25, 0),
  (24/25, 7/25, 0), (0, 0, 1), whose sub-columns all have nonzero leading entries,
  \<open>apply_Q\<close> maps the first unit vector to (-7/25, -24/25, 0), while the transpose of
  \<open>Q\<close> maps it to (-7/25, 24/25, 0).
\<close>

theorem apply_Q_is_not_Q_transpose:
  "apply_Q_of (mat_of 3 3 [[Fin (7/25), Fin (- (24/25)), Fin 0], [Fin (24/25), Fin (7/25), Fin 0], [Fin 0, Fin 0, Fin 1]])
     (vec_of [Fin 1, Fin 0, Fin 0]) = Inr [Fin (- (7/25)), Fin (- (24/25)), Fin 0] \<and>
   Qt_dot_of (mat_of 3 3 [[Fin (7/25), Fin (- (24/25)), Fin 0], [Fin (24/25), Fin (7/25), Fin 0], [Fin 0, Fin 0, Fin 1]])
     (vec_of [Fin 1, Fin 0, Fin 0]) = Inr [Fin (- (7/25)), Fin (24/25), Fin 0]"
proof
  have "apply_Q (mat_of 3 3 [[Fin (4/5), Fin 0, Fin 0], [Fin (3/5), Fin 1, Fin 0], [Fin 0, Fin 0, Fin 0]])
     (vec_of [Fin 1, Fin 0, Fin 0]) = Inr (vec_of [Fin (- (7/25)), Fin (- (24/25)), Fin 0])"
    apply (simp add: apply_Q_def reflect_tail_def eval_nat_numeral)
    apply (rule vec_ofI)
    apply (simp_all add: eval_simps)
    done
  then show "apply_Q_of (mat_of 3 3 [[Fin (7/25), Fin (- (24/25)), Fin 0], [Fin (24/25), Fin (7/25), Fin 0], [Fin 0, Fin 0, Fin 1]])
     (vec_of [Fin 1, Fin 0, Fin 0]) = Inr [Fin (- (7/25)), Fin (- (24/25)), Fin 0]"
    unfolding apply_Q_of_def rot_householder
    by (simp add: to_list_def eval_nat_numeral)
  show "Qt_dot_of (mat_of 3 3 [[Fin (7/25), Fin (- (24/25)), Fin 0], [Fin (24/25), Fin (7/25), Fin 0], [Fin 0, Fin 0, Fin 1]])
     (vec_of [Fin 1, Fin 0, Fin 0]) = Inr [Fin (- (7/25)), Fin (24/25), Fin 0]"
    by (simp add: Qt_dot_of_def rot_householder rot_compute_Q del: ent_mat_of)
       (simp add: to_list_def matvec_def transpose_m_def eval_nat_numeral zero_fl_def)
qed

text \<open>The theorem at the reflectors of that matrix and the vector (1, 2, 3).\<close>

theorem apply_Q_is_Q_witness:
  "fin_mat (mat_of 3 3 [[Fin (4/5), Fin 0, Fin 0], [Fin (3/5), Fin 1, Fin 0], [Fin 0, Fin 0, Fin 0]]) \<and>
   nrows (mat_of 3 3 [[Fin (4/5), Fin 0, Fin 0], [Fin (3/5), Fin 1, Fin 0], [Fin 0, Fin 0, Fin 0]]) =
     ncols (mat_of 3 3 [[Fin (4/5), Fin 0, Fin 0], [Fin (3/5), Fin 1, Fin 0], [Fin 0, Fin 0, Fin 0]]) \<and>
   fin_vec (vec_of [Fin 1, Fin 2, Fin 3]) \<and>
   vlen (vec_of [Fin 1, Fin 2, Fin 3]) =
     nrows (mat_of 3 3 [[Fin (4/5), Fin 0, Fin 0], [Fin (3/5), Fin 1, Fin 0], [Fin 0, Fin 0, Fin 0]]) \<and>
   (\<exists>y Q. apply_Q (mat_of 3 3 [[Fin (4/5), Fin 0, Fin 0], [Fin (3/5), Fin 1, Fin 0], [Fin 0, Fin 0, Fin 0]])
             (vec_of [Fin 1, Fin 2, Fin 3]) = Inr y \<and>
          compute_Q (mat_of 3 3 [[Fin (4/5), Fin 0, Fin 0], [Fin (3/5), Fin 1, Fin 0], [Fin 0, Fin 0, Fin 0]]) = Inr Q \<and>
          to_list y = to_list (matvec Q (vec_of [Fin 1, Fin 2, Fin 3])))"
proof -
  let ?V = "mat_of 3 3 [[Fin (4/5), Fin 0, Fin 0], [Fin (3/5), Fin 1, Fin 0], [Fin 0, Fin 0, Fin 0]]"
  let ?x = "vec_of [Fin 1, Fin 2, Fin 3]"
  have V: "fin_mat ?V" by (simp add: fin_mat_def All_less_Suc eval_nat_numeral)
  have sq: "nrows ?V = ncols ?V" by simp
  have x: "fin_vec ?x" by (simp add: fin_vec_def All_less_Suc eval_nat_numeral)
  have len: "vlen ?x = nrows ?V" by simp
  from apply_Q_is_Q [OF V sq x len] V sq x len show ?thesis by blast
qed

section \<open>\<open>Q\<close> is orthonormal\<close>

lemma reflect_inner:
  fixes a b v :: "nat \<Rightarrow> real"
  assumes "finite S" and "(\<Sum>i\<in>S. v i * v i) = 1 \<or> (\<forall>i\<in>S. v i = 0)"
  shows "(\<Sum>i\<in>S. (a i - 2 * (\<Sum>l\<in>S. v l * a l) * v i) * (b i - 2 * (\<Sum>l\<in>S. v l * b l) * v i)) =
         (\<Sum>i\<in>S. a i * b i)"
proof -
  let ?da = "\<Sum>l\<in>S. v l * a l" and ?db = "\<Sum>l\<in>S. v l * b l" and ?W = "\<Sum>i\<in>S. v i * v i"
  have "(\<Sum>i\<in>S. (a i - 2 * ?da * v i) * (b i - 2 * ?db * v i)) =
        (\<Sum>i\<in>S. a i * b i - 2 * ?db * (v i * a i) - 2 * ?da * (v i * b i) + 4 * ?da * ?db * (v i * v i))"
    by (rule sum.cong) (simp_all add: algebra_simps)
  also have "\<dots> = (\<Sum>i\<in>S. a i * b i) - 2 * ?db * ?da - 2 * ?da * ?db + 4 * ?da * ?db * ?W"
    by (simp add: sum.distrib sum_subtractf sum_distrib_left)
  also have "\<dots> = (\<Sum>i\<in>S. a i * b i) + 4 * ?da * ?db * (?W - 1)"
    by (simp add: algebra_simps)
  also have "\<dots> = (\<Sum>i\<in>S. a i * b i)"
  proof -
    from assms(2) have "?W = 1 \<or> ?da = 0" by auto
    then show ?thesis by auto
  qed
  finally show ?thesis .
qed

lemma unit_or_zero_col:
  assumes "reflector_set V" "k < ncols V"
  shows "(\<Sum>l\<in>{k..<nrows V}. re (ent V l k) * re (ent V l k)) = 1 \<or>
         (\<forall>l\<in>{k..<nrows V}. re (ent V l k) = 0)"
proof -
  from assms have "unit_or_zero (col_from V k k)" by (simp add: reflector_set_def)
  then consider "(\<Sum>i<nrows V - k. re (ent V (k + i) k) * re (ent V (k + i) k)) = 1"
    | "\<forall>i<nrows V - k. ent V (k + i) k = 0"
    by (auto simp: unit_or_zero_def)
  then show ?thesis
  proof cases
    case 1
    then show ?thesis
      using sum_shift [of "\<lambda>l. re (ent V l k) * re (ent V l k)" k "nrows V"] by simp
  next
    case 2
    have "re (ent V l k) = 0" if "l \<in> {k..<nrows V}" for l
    proof -
      from that have "l - k < nrows V - k" "k + (l - k) = l" by auto
      with 2 have "ent V l k = 0" by metis
      then show ?thesis by simp
    qed
    then show ?thesis by blast
  qed
qed

lemma apply_Q_loop_inner:
  assumes V: "reflector_set V"
  shows "\<forall>k\<in>set ks. k < ncols V \<Longrightarrow> fin_vec x \<Longrightarrow> vlen x = nrows V \<Longrightarrow>
         fin_vec y \<Longrightarrow> vlen y = nrows V \<Longrightarrow>
         \<exists>x' y'. apply_Q_loop V ks x = Inr x' \<and> apply_Q_loop V ks y = Inr y' \<and>
           fin_vec x' \<and> vlen x' = nrows V \<and> fin_vec y' \<and> vlen y' = nrows V \<and>
           (\<Sum>i<nrows V. re (vent x' i) * re (vent y' i)) = (\<Sum>i<nrows V. re (vent x i) * re (vent y i))"
proof (induct ks arbitrary: x y)
  case Nil
  then show ?case by simp
next
  case (Cons k ks)
  let ?m = "nrows V"
  let ?v = "\<lambda>l. re (ent V l k)"
  let ?d = "\<lambda>z. \<Sum>l\<in>{k..<?m}. ?v l * re (vent z l)"
  from V have fV: "fin_mat V" by (simp add: reflector_set_def)
  from Cons.prems have k: "k < ncols V" by simp
  from reflect_tail_fin [OF fV k Cons.prems(2,3)] Cons.prems(3)
  obtain x1 where x1: "reflect_tail V k x = Inr x1" "vlen x1 = ?m" "fin_vec x1"
    "\<forall>i<?m. re (vent x1 i) = (if k \<le> i then re (vent x i) - 2 * ?d x * ?v i else re (vent x i))"
    by auto
  from reflect_tail_fin [OF fV k Cons.prems(4,5)] Cons.prems(5)
  obtain y1 where y1: "reflect_tail V k y = Inr y1" "vlen y1 = ?m" "fin_vec y1"
    "\<forall>i<?m. re (vent y1 i) = (if k \<le> i then re (vent y i) - 2 * ?d y * ?v i else re (vent y i))"
    by auto
  have keep: "(\<Sum>i<?m. re (vent x1 i) * re (vent y1 i)) = (\<Sum>i<?m. re (vent x i) * re (vent y i))"
  proof (cases "k \<le> ?m")
    case True
    have split: "(\<Sum>i<?m. f i) = (\<Sum>i<k. f i) + (\<Sum>i\<in>{k..<?m}. f i)" for f :: "nat \<Rightarrow> real"
      using True sum.atLeastLessThan_concat [of 0 k ?m f] by (simp add: lessThan_atLeast0)
    have low: "(\<Sum>i<k. re (vent x1 i) * re (vent y1 i)) = (\<Sum>i<k. re (vent x i) * re (vent y i))"
      by (rule sum.cong) (use x1(4) y1(4) True in auto)
    have "(\<Sum>i\<in>{k..<?m}. re (vent x1 i) * re (vent y1 i)) =
          (\<Sum>i\<in>{k..<?m}. (re (vent x i) - 2 * ?d x * ?v i) * (re (vent y i) - 2 * ?d y * ?v i))"
      by (rule sum.cong) (use x1(4) y1(4) in auto)
    also have "\<dots> = (\<Sum>i\<in>{k..<?m}. re (vent x i) * re (vent y i))"
      by (rule reflect_inner) (use unit_or_zero_col [OF V k] in auto)
    finally show ?thesis using low by (simp add: split)
  next
    case False
    show ?thesis
      by (rule sum.cong) (use x1(4) y1(4) False in auto)
  qed
  have "\<exists>x' y'. apply_Q_loop V ks x1 = Inr x' \<and> apply_Q_loop V ks y1 = Inr y' \<and>
           fin_vec x' \<and> vlen x' = ?m \<and> fin_vec y' \<and> vlen y' = ?m \<and>
           (\<Sum>i<?m. re (vent x' i) * re (vent y' i)) = (\<Sum>i<?m. re (vent x1 i) * re (vent y1 i))"
    by (rule Cons.hyps) (use Cons.prems(1) x1 y1 in auto)
  with keep x1(1) y1(1) show ?case by auto
qed

lemma is_fin_arith [simp]:
  "is_fin a \<Longrightarrow> is_fin b \<Longrightarrow> is_fin (a + b)"
  "is_fin a \<Longrightarrow> is_fin b \<Longrightarrow> is_fin (a - b)"
  "is_fin a \<Longrightarrow> is_fin b \<Longrightarrow> is_fin (a * b)"
  "is_fin (numeral n)"
  by (auto simp: is_fin_conv numeral_fl)

lemma is_fin_sum: "(\<And>i. i \<in> S \<Longrightarrow> is_fin (f i)) \<Longrightarrow> is_fin (\<Sum>i\<in>S. f i)"
  by (induct S rule: infinite_finite_induct) simp_all

lemma sum_re: "(\<And>i. i \<in> S \<Longrightarrow> is_fin (f i)) \<Longrightarrow> (\<Sum>i\<in>S. f i) = Fin (\<Sum>i\<in>S. re (f i))"
proof -
  assume fin: "\<And>i. i \<in> S \<Longrightarrow> is_fin (f i)"
  have "(\<Sum>i\<in>S. f i) = (\<Sum>i\<in>S. Fin (re (f i)))"
  proof (rule sum.cong)
    fix i assume "i \<in> S"
    from fin [OF this] obtain r where "f i = Fin r" by (auto simp: is_fin_conv)
    then show "f i = Fin (re (f i))" by simp
  qed simp
  then show ?thesis by simp
qed

lemma fin_vec_col: "fin_mat A \<Longrightarrow> c < ncols A \<Longrightarrow> fin_vec (col_from A k c)"
  by (simp add: fin_mat_def fin_vec_def)

lemma dot_is_fin: "fin_vec x \<Longrightarrow> fin_vec y \<Longrightarrow> vlen y = vlen x \<Longrightarrow> is_fin (dot x y)"
  unfolding dot_def by (rule is_fin_sum) (simp add: fin_vec_def)

lemma norm2_fin:
  assumes "fin_vec x"
  shows "norm2 x = Fin (sqrt (\<Sum>i<vlen x. re (vent x i) * re (vent x i)))"
proof -
  have "(\<Sum>i<vlen x. vent x i * vent x i) = Fin (\<Sum>i<vlen x. re (vent x i * vent x i))"
    by (rule sum_re) (use assms in \<open>simp add: fin_vec_def\<close>)
  also have "(\<Sum>i<vlen x. re (vent x i * vent x i)) = (\<Sum>i<vlen x. re (vent x i) * re (vent x i))"
  proof (rule sum.cong)
    fix i assume "i \<in> {..<vlen x}"
    with fin_vecD [OF assms, of i] obtain r where "vent x i = Fin r" by auto
    then show "re (vent x i * vent x i) = re (vent x i) * re (vent x i)" by simp
  qed simp
  finally have "norm2 x = np_sqrt (Fin (\<Sum>i<vlen x. re (vent x i) * re (vent x i)))"
    by (simp add: norm2_def)
  moreover have "0 \<le> (\<Sum>i<vlen x. re (vent x i) * re (vent x i))"
    by (rule sum_nonneg) simp
  ultimately show ?thesis by simp
qed

lemma perturb_fin:
  assumes "fin_vec x"
  shows "fin_vec (perturb x)"
    and "i < vlen x \<Longrightarrow> re (vent (perturb x) i) =
           (if i = 0
            then re (vent x 0) + sgn (re (vent x 0)) * sqrt (\<Sum>i<vlen x. re (vent x i) * re (vent x i))
            else re (vent x i))"
proof -
  have *: "vent (perturb x) i = Fin (if i = 0
            then re (vent x 0) + sgn (re (vent x 0)) * sqrt (\<Sum>i<vlen x. re (vent x i) * re (vent x i))
            else re (vent x i))" if "i < vlen x" for i
  proof -
    from that have "0 < vlen x" by simp
    with fin_vecD [OF assms, of 0] fin_vecD [OF assms that]
    obtain a b where "vent x 0 = Fin a" "vent x i = Fin b" by auto
    then show ?thesis by (simp add: norm2_fin [OF assms])
  qed
  show "fin_vec (perturb x)"
    unfolding fin_vec_def
  proof (intro allI impI)
    fix i assume "i < vlen (perturb x)"
    then have "i < vlen x" by simp
    from * [OF this] show "is_fin (vent (perturb x) i)" by (simp only: is_fin.simps)
  qed
  show "i < vlen x \<Longrightarrow> re (vent (perturb x) i) =
           (if i = 0
            then re (vent x 0) + sgn (re (vent x 0)) * sqrt (\<Sum>i<vlen x. re (vent x i) * re (vent x i))
            else re (vent x i))"
    using * [of i] by (simp only: re.simps)
qed

lemma perturb_nonzero:
  assumes fin: "fin_vec x" and nz: "nonzero_vec x"
  shows "0 < (\<Sum>i<vlen x. re (vent (perturb x) i) * re (vent (perturb x) i))"
proof -
  let ?r = "sqrt (\<Sum>i<vlen x. re (vent x i) * re (vent x i))"
  let ?p = "\<lambda>i. re (vent (perturb x) i)"
  from nz obtain j where j: "j < vlen x" "vent x j \<noteq> 0" by (auto simp: nonzero_vec_def)
  from fin_vecD [OF fin j(1)] j(2) have aj: "re (vent x j) \<noteq> 0"
    by (auto simp: zero_fl_def)
  have r: "0 \<le> ?r" by (simp add: sum_nonneg)
  have "\<exists>i<vlen x. ?p i \<noteq> 0"
  proof (cases "re (vent x 0) = 0")
    case True
    with aj have "j \<noteq> 0" by (cases j) auto
    with perturb_fin(2) [OF fin j(1)] aj have "?p j \<noteq> 0" by simp
    with j(1) show ?thesis by blast
  next
    case False
    from j(1) have 0: "0 < vlen x" by simp
    define a0 where "a0 = re (vent x 0)"
    define r0 where "r0 = ?r"
    define p0 where "p0 = ?p 0"
    from perturb_fin(2) [OF fin 0] have p0: "p0 = a0 + sgn a0 * r0"
      unfolding a0_def r0_def p0_def by (simp only: refl if_True)
    from r have r0: "0 \<le> r0" unfolding r0_def .
    from False have a0: "a0 \<noteq> 0" unfolding a0_def .
    have "p0 \<noteq> 0"
    proof (cases "0 < a0")
      case True
      with r0 have "0 < a0 + r0" by (simp add: add_pos_nonneg)
      with True p0 show ?thesis by simp
    next
      case neg: False
      with a0 have "a0 < 0" by simp
      with r0 have "a0 - r0 < 0" by simp
      with \<open>a0 < 0\<close> p0 show ?thesis by simp
    qed
    then have "?p 0 \<noteq> 0" unfolding p0_def .
    with 0 show ?thesis by blast
  qed
  then obtain i where i: "i < vlen x" "?p i \<noteq> 0" by blast
  have sq: "0 < t * t" if "t \<noteq> 0" for t :: real
    using that by (auto simp: zero_less_mult_iff)
  show ?thesis
  proof (rule sum_pos2 [of _ i])
    show "0 < ?p i * ?p i" by (rule sq) (rule i(2))
  qed (use i(1) in simp_all)
qed

lemma normalised_unit:
  assumes fin: "fin_vec p" and pos: "0 < (\<Sum>i<vlen p. re (vent p i) * re (vent p i))"
  shows "fin_vec (vdiv p (norm2 p))"
    and "(\<Sum>i<vlen p. re (vent (vdiv p (norm2 p)) i) * re (vent (vdiv p (norm2 p)) i)) = 1"
proof -
  let ?S = "\<Sum>i<vlen p. re (vent p i) * re (vent p i)"
  from pos have s: "0 < sqrt ?S" by simp
  have *: "vent (vdiv p (norm2 p)) i = Fin (re (vent p i) / sqrt ?S)" if "i < vlen p" for i
  proof -
    from fin_vecD [OF fin that] obtain a where "vent p i = Fin a" by auto
    with s show ?thesis by (simp add: norm2_fin [OF fin])
  qed
  show "fin_vec (vdiv p (norm2 p))"
    unfolding fin_vec_def
  proof (intro allI impI)
    fix i assume "i < vlen (vdiv p (norm2 p))"
    then have "i < vlen p" by simp
    from * [OF this] show "is_fin (vent (vdiv p (norm2 p)) i)" by (simp only: is_fin.simps)
  qed
  have "(\<Sum>i<vlen p. re (vent (vdiv p (norm2 p)) i) * re (vent (vdiv p (norm2 p)) i)) =
        (\<Sum>i<vlen p. (re (vent p i) * re (vent p i)) / ?S)"
  proof (rule sum.cong)
    fix i assume "i \<in> {..<vlen p}"
    then have "i < vlen p" by simp
    from * [OF this] have "re (vent (vdiv p (norm2 p)) i) = re (vent p i) / sqrt ?S"
      by (simp only: re.simps)
    moreover have "sqrt ?S * sqrt ?S = ?S" using pos by simp
    ultimately show "re (vent (vdiv p (norm2 p)) i) * re (vent (vdiv p (norm2 p)) i) =
        (re (vent p i) * re (vent p i)) / ?S"
      by simp
  qed simp
  also have "\<dots> = ?S / ?S" by (rule sum_divide_distrib [symmetric])
  also have "\<dots> = 1" using pos by simp
  finally show "(\<Sum>i<vlen p. re (vent (vdiv p (norm2 p)) i) * re (vent (vdiv p (norm2 p)) i)) = 1" .
qed

lemma unit_or_zero_cong:
  assumes "vlen v = vlen w" "\<And>i. i < vlen v \<Longrightarrow> vent v i = vent w i"
  shows "unit_or_zero v = unit_or_zero w"
proof -
  have "(\<Sum>i<vlen v. re (vent v i) * re (vent v i)) = (\<Sum>i<vlen w. re (vent w i) * re (vent w i))"
    using assms by (intro sum.cong) simp_all
  moreover have "(\<forall>i<vlen v. vent v i = 0) = (\<forall>i<vlen w. vent w i = 0)"
    using assms by auto
  ultimately show ?thesis by (simp add: unit_or_zero_def)
qed

lemma householder_step_reflectors:
  assumes V: "reflector_set V" and R: "fin_mat R"
    and dims: "nrows V = nrows R" "ncols V = ncols R"
    and k: "k < ncols R" and nz: "nonzero_vec (col_from R k k)"
  shows "\<exists>V' R'. householder_step k (V, R) = Inr (V', R') \<and> reflector_set V' \<and> fin_mat R' \<and>
           nrows V' = nrows R \<and> ncols V' = ncols R \<and> nrows R' = nrows R \<and> ncols R' = ncols R"
proof -
  let ?m = "nrows R" and ?n = "ncols R"
  define p where "p = perturb (col_from R k k)"
  define v where "v = vdiv p (norm2 p)"
  define V' where "V' = set_col_from V k k v"
  define R' where "R' = fold (reflect_col V' k) [k..<?n] R"
  from nz have km: "k < ?m" by (auto simp: nonzero_vec_def)
  have run: "householder_step k (V, R) = Inr (V', R')"
    unfolding R'_def V'_def v_def p_def by (rule householder_step_Inr [OF km])
  have x: "fin_vec (col_from R k k)" by (rule fin_vec_col [OF R k])
  have p: "fin_vec p" unfolding p_def by (rule perturb_fin(1) [OF x])
  have plen: "vlen p = ?m - k" unfolding p_def by simp
  have pos: "0 < (\<Sum>i<vlen p. re (vent p i) * re (vent p i))"
    using perturb_nonzero [OF x nz] unfolding p_def by simp
  have v: "fin_vec v" unfolding v_def by (rule normalised_unit(1) [OF p pos])
  have len: "vlen v = ?m - k" unfolding v_def by (simp add: plen)
  have unit: "(\<Sum>i<vlen v. re (vent v i) * re (vent v i)) = 1"
    using normalised_unit(2) [OF p pos] unfolding v_def by simp
  from V have fV: "fin_mat V" by (simp add: reflector_set_def)
  have dV: "nrows V' = ?m" "ncols V' = ?n" unfolding V'_def by (simp_all add: dims)
  have entV: "ent V' i j = (if j = k \<and> k \<le> i \<and> i < ?m then vent v (i - k) else ent V i j)" for i j
    unfolding V'_def by (simp add: dims)
  have dR: "nrows R' = ?m" "ncols R' = ?n" unfolding R'_def by simp_all
  have entR: "ent R' i j = (if j \<in> set [k..<?n] \<and> k \<le> i \<and> i < ?m
      then ent R i j - 2 * ent V' i k * dot (col_from V' k k) (col_from R k j) else ent R i j)" for i j
    unfolding R'_def by (rule fold_reflect_col_ent) simp
  have fV': "fin_mat V'"
    unfolding fin_mat_def
  proof (intro allI impI)
    fix i j assume "i < nrows V'" "j < ncols V'"
    then have ij: "i < ?m" "j < ?n" by (simp_all add: dV)
    show "is_fin (ent V' i j)"
    proof (cases "j = k \<and> k \<le> i")
      case True
      with ij have "i - k < ?m - k" by (simp add: diff_less_mono)
      with v have "is_fin (vent v (i - k))" unfolding fin_vec_def len by blast
      with True ij show ?thesis by (simp add: entV)
    next
      case False
      from fV ij dims have "is_fin (ent V i j)" by (simp add: fin_mat_def)
      with False show ?thesis by (auto simp: entV)
    qed
  qed
  have cols: "unit_or_zero (col_from V' c c)" if c: "c < ?n" for c
  proof (cases "c = k")
    case True
    have "unit_or_zero (col_from V' k k) = unit_or_zero v"
      by (rule unit_or_zero_cong) (auto simp: dV len entV)
    moreover have "unit_or_zero v" using unit by (simp add: unit_or_zero_def)
    ultimately show ?thesis using True by simp
  next
    case False
    have "unit_or_zero (col_from V' c c) = unit_or_zero (col_from V c c)"
      by (rule unit_or_zero_cong) (use False in \<open>auto simp: dV dims entV\<close>)
    with V c dims show ?thesis by (simp add: reflector_set_def)
  qed
  have rV': "reflector_set V'"
    using fV' cols by (simp add: reflector_set_def dV)
  have fR': "fin_mat R'"
    unfolding fin_mat_def
  proof (intro allI impI)
    fix i j assume "i < nrows R'" "j < ncols R'"
    then have ij: "i < ?m" "j < ?n" by (simp_all add: dR)
    from R ij have Rij: "is_fin (ent R i j)" by (simp add: fin_mat_def)
    have d: "is_fin (dot (col_from V' k k) (col_from R k j))"
      by (rule dot_is_fin) (use fin_vec_col [OF fV', of k k] fin_vec_col [OF R ij(2), of k] k dV in simp_all)
    from fV' ij k dV have "is_fin (ent V' i k)" by (simp add: fin_mat_def)
    with d Rij have "is_fin (ent R i j - 2 * ent V' i k * dot (col_from V' k k) (col_from R k j))"
      by (intro is_fin_arith)
    with Rij show "is_fin (ent R' i j)" by (simp add: entR)
  qed
  show ?thesis
    using run rV' fR' dV dR by blast
qed

lemma householder_loop_reflectors:
  "subcolumns_nonzero ks (V, R) \<Longrightarrow> \<forall>k\<in>set ks. k < ncols R \<Longrightarrow>
   reflector_set V \<Longrightarrow> fin_mat R \<Longrightarrow> nrows V = nrows R \<Longrightarrow> ncols V = ncols R \<Longrightarrow>
   \<exists>V' R'. householder_loop ks (V, R) = Inr (V', R') \<and> reflector_set V' \<and> fin_mat R' \<and>
     nrows V' = nrows R \<and> ncols V' = ncols R \<and> nrows R' = nrows R \<and> ncols R' = ncols R"
proof (induct ks arbitrary: V R)
  case Nil
  then show ?case by simp
next
  case (Cons k ks)
  from Cons.prems(1) have nz: "nonzero_vec (col_from R k k)" by simp
  from Cons.prems(2) have k: "k < ncols R" by simp
  from householder_step_reflectors [OF Cons.prems(3,4,5,6) k nz]
  obtain V1 R1 where step: "householder_step k (V, R) = Inr (V1, R1)"
    and inv: "reflector_set V1" "fin_mat R1"
    and d: "nrows V1 = nrows R" "ncols V1 = ncols R" "nrows R1 = nrows R" "ncols R1 = ncols R"
    by blast
  from Cons.prems(1) step have nz': "subcolumns_nonzero ks (V1, R1)" by simp
  from Cons.prems(2) d have ks: "\<forall>k\<in>set ks. k < ncols R1" by simp
  from Cons.hyps [OF nz' ks inv] d step show ?case by simp
qed

lemma reflector_set_zeros: "reflector_set (zeros2 m n)"
  by (simp add: reflector_set_def fin_mat_def unit_or_zero_def)

lemma unit_inner:
  assumes "a < m" "b < m"
  shows "(\<Sum>i<m. re (vent (vec_of ((replicate m 0)[a := 1])) i) *
                 re (vent (vec_of ((replicate m 0)[b := 1])) i)) = (if a = b then 1 else 0)"
proof -
  have "(\<Sum>i<m. re (vent (vec_of ((replicate m 0)[a := 1])) i) *
                 re (vent (vec_of ((replicate m 0)[b := 1])) i)) =
        (\<Sum>i<m. if i = a then (if a = b then 1 else 0) else 0)"
    by (rule sum.cong) (use assms in \<open>auto simp: unit_literal_props(3)\<close>)
  also have "\<dots> = (if a = b then 1 else 0)" using assms by simp
  finally show ?thesis .
qed

text \<open>
  C3. For every square matrix of reals whose extracted sub-columns are all nonzero,
  \<open>householder\<close> and \<open>compute_Q\<close> return, and the transpose of \<open>Q\<close> times \<open>Q\<close> is the
  identity matrix, entry by entry.
\<close>

theorem Q_orthonormal:
  assumes A: "fin_mat A" and sq: "nrows A = ncols A" and nz: "all_subcolumns_nonzero A"
  shows "QtQ_of A = Inr (to_rows (eye (ncols A)))"
proof -
  let ?n = "ncols A"
  let ?e = "\<lambda>c. vec_of ((replicate ?n 0)[c := 1])"
  have "\<forall>k\<in>set [0..<?n - 1]. k < ncols A" by auto
  from householder_loop_reflectors [OF nz [unfolded all_subcolumns_nonzero_def] this
      reflector_set_zeros A] sq
  obtain V R where loop: "householder_loop [0..<?n - 1] (zeros2 (nrows A) ?n, A) = Inr (V, R)"
    and V: "reflector_set V" and dV: "nrows V = ?n" "ncols V = ?n"
    by auto
  from loop have run: "householder A = Inr (V, rows_upto R ?n)"
    by (simp add: householder_def Let_def)
  have ks: "\<forall>k\<in>set (rev [0..<ncols V]). k < ncols V" by simp
  have pair: "\<exists>x' y'. apply_Q V (?e a) = Inr x' \<and> apply_Q V (?e b) = Inr y' \<and>
      fin_vec x' \<and> vlen x' = ?n \<and> fin_vec y' \<and> vlen y' = ?n \<and>
      (\<Sum>i<?n. re (vent x' i) * re (vent y' i)) = (if a = b then 1 else 0)"
    if "a < ?n" "b < ?n" for a b
    using apply_Q_loop_inner [OF V ks, of "?e a" "?e b"] that
    by (simp add: apply_Q_def dV unit_literal_props(1,2) unit_inner del: vent_vec_of)
  have ex: "\<forall>c. \<exists>y. c < ?n \<longrightarrow> apply_Q V (?e c) = Inr y \<and> fin_vec y \<and> vlen y = ?n"
  proof
    fix c
    show "\<exists>y. c < ?n \<longrightarrow> apply_Q V (?e c) = Inr y \<and> fin_vec y \<and> vlen y = ?n"
      using pair [of c c] by (cases "c < ?n") auto
  qed
  from choice [OF ex] obtain w where
    w: "\<forall>c. c < ?n \<longrightarrow> apply_Q V (?e c) = Inr (w c) \<and> fin_vec (w c) \<and> vlen (w c) = ?n" ..
  have inner: "(\<Sum>i<?n. re (vent (w a) i) * re (vent (w b) i)) = (if a = b then 1 else 0)"
    if "a < ?n" "b < ?n" for a b
    using pair [OF that] w that by auto
  from w dV have "\<forall>k<ncols V. apply_Q V (vec_of ((replicate (nrows V) 0)[k := 1])) = Inr (w k)"
    by simp
  from compute_Q_ent [OF _ this] dV
  obtain Q where Q: "compute_Q V = Inr Q" "nrows Q = ?n" "ncols Q = ?n"
    "\<forall>i c. ent Q i c = (if c < ?n \<and> i < ?n then vent (w c) i else 0)"
    by auto
  have entry: "ent (matmul (transpose_m Q) Q) a b = ent (eye ?n) a b" if ab: "a < ?n" "b < ?n" for a b
  proof -
    have "ent (matmul (transpose_m Q) Q) a b = (\<Sum>l<?n. vent (w a) l * vent (w b) l)"
      using Q ab by (simp add: matmul_def transpose_m_def)
    also have "\<dots> = Fin (\<Sum>l<?n. re (vent (w a) l * vent (w b) l))"
    proof (rule sum_re)
      fix l assume "l \<in> {..<?n}"
      with w ab show "is_fin (vent (w a) l * vent (w b) l)"
        by (auto simp: fin_vec_def)
    qed
    also have "(\<Sum>l<?n. re (vent (w a) l * vent (w b) l)) = (\<Sum>l<?n. re (vent (w a) l) * re (vent (w b) l))"
    proof (rule sum.cong)
      fix l assume "l \<in> {..<?n}"
      with w ab fin_vecD [of "w a" l] fin_vecD [of "w b" l]
      obtain r t where "vent (w a) l = Fin r" "vent (w b) l = Fin t" by auto
      then show "re (vent (w a) l * vent (w b) l) = re (vent (w a) l) * re (vent (w b) l)" by simp
    qed simp
    also have "\<dots> = (if a = b then 1 else 0)" by (rule inner [OF ab])
    finally show ?thesis by (simp add: eye_def zero_fl_def one_fl_def)
  qed
  have "to_rows (matmul (transpose_m Q) Q) = to_rows (eye ?n)"
    unfolding to_rows_def using Q(2,3) entry
    by (simp add: matmul_def transpose_m_def eye_def)
  with run Q(1) show ?thesis by (simp add: QtQ_of_def)
qed

text \<open>The theorem at the rotation matrix above.\<close>

theorem Q_orthonormal_witness:
  "fin_mat (mat_of 3 3 [[Fin (7/25), Fin (- (24/25)), Fin 0], [Fin (24/25), Fin (7/25), Fin 0], [Fin 0, Fin 0, Fin 1]]) \<and>
   nrows (mat_of 3 3 [[Fin (7/25), Fin (- (24/25)), Fin 0], [Fin (24/25), Fin (7/25), Fin 0], [Fin 0, Fin 0, Fin 1]]) =
     ncols (mat_of 3 3 [[Fin (7/25), Fin (- (24/25)), Fin 0], [Fin (24/25), Fin (7/25), Fin 0], [Fin 0, Fin 0, Fin 1]]) \<and>
   all_subcolumns_nonzero
     (mat_of 3 3 [[Fin (7/25), Fin (- (24/25)), Fin 0], [Fin (24/25), Fin (7/25), Fin 0], [Fin 0, Fin 0, Fin 1]]) \<and>
   QtQ_of (mat_of 3 3 [[Fin (7/25), Fin (- (24/25)), Fin 0], [Fin (24/25), Fin (7/25), Fin 0], [Fin 0, Fin 0, Fin 1]]) =
     Inr [[Fin 1, Fin 0, Fin 0], [Fin 0, Fin 1, Fin 0], [Fin 0, Fin 0, Fin 1]]"
proof -
  let ?A = "mat_of 3 3 [[Fin (7/25), Fin (- (24/25)), Fin 0], [Fin (24/25), Fin (7/25), Fin 0], [Fin 0, Fin 0, Fin 1]]"
  have A: "fin_mat ?A" by (simp add: fin_mat_def All_less_Suc eval_nat_numeral)
  have sq: "nrows ?A = ncols ?A" by simp
  have nz: "all_subcolumns_nonzero ?A"
    using rot_step0 rot_step1
    by (simp add: all_subcolumns_nonzero_def upt_2 zeros2_mat_of nonzero_vec_def Ex_less_Suc
        eval_nat_numeral zero_fl_def del: ent_mat_of)
       (simp add: eval_nat_numeral)
  have "to_rows (eye (ncols ?A)) = [[Fin 1, Fin 0, Fin 0], [Fin 0, Fin 1, Fin 0], [Fin 0, Fin 0, Fin 1]]"
    by (simp add: to_rows_def eye_def eval_nat_numeral zero_fl_def one_fl_def)
  with Q_orthonormal [OF A sq nz] A sq nz show ?thesis by simp
qed

section \<open>When no leading entry is zero\<close>

text \<open>
  \<open>np.sign\<close> is 1 or -1 at every leading entry that is not zero. In the runs where no
  extracted sub-column has a zero leading entry the loop does triangularize: each step
  clears its column below the diagonal, and the product of the factors is the matrix
  that was factored.
\<close>

lemma sum_split_first:
  fixes f :: "nat \<Rightarrow> real"
  assumes "0 < n"
  shows "(\<Sum>l<n. f l) = f 0 + (\<Sum>l\<in>{1..<n}. f l)"
  using assms sum.atLeast_Suc_lessThan [of 0 n f] by (simp add: lessThan_atLeast0)

text \<open>The reflection built from a column with nonzero leading entry clears the column below that entry.\<close>

lemma reflection_clears:
  fixes x p :: "nat \<Rightarrow> real"
  assumes n: "0 < n" and x0: "x 0 \<noteq> 0"
    and r: "r = sqrt (\<Sum>l<n. x l * x l)"
    and p0: "p 0 = x 0 + sgn (x 0) * r" and p: "\<And>l. 0 < l \<Longrightarrow> p l = x l"
    and s: "s = sqrt (\<Sum>l<n. p l * p l)" and i: "0 < i"
  shows "x i - 2 * (p i / s) * (\<Sum>l<n. p l / s * x l) = 0"
proof -
  let ?X = "\<Sum>l<n. x l * x l"
  let ?T = "\<Sum>l\<in>{1..<n}. x l * x l"
  have X: "?X = x 0 * x 0 + ?T" by (rule sum_split_first [OF n])
  have X0: "0 \<le> ?X" by (rule sum_nonneg) simp
  have rr: "r * r = ?X" unfolding r using X0 by simp
  have sg: "sgn (x 0) * sgn (x 0) = 1" using x0 by (simp add: sgn_if)
  have "(\<Sum>l<n. p l * x l) = p 0 * x 0 + (\<Sum>l\<in>{1..<n}. p l * x l)"
    by (rule sum_split_first [OF n])
  also have "(\<Sum>l\<in>{1..<n}. p l * x l) = ?T"
    by (rule sum.cong) (simp_all add: p)
  finally have px: "(\<Sum>l<n. p l * x l) = ?X + sgn (x 0) * r * x 0"
    unfolding X p0 by (simp add: algebra_simps)
  have "(\<Sum>l<n. p l * p l) = p 0 * p 0 + (\<Sum>l\<in>{1..<n}. p l * p l)"
    by (rule sum_split_first [OF n])
  also have "(\<Sum>l\<in>{1..<n}. p l * p l) = ?T"
    by (rule sum.cong) (simp_all add: p)
  finally have "(\<Sum>l<n. p l * p l) = (x 0 + sgn (x 0) * r) * (x 0 + sgn (x 0) * r) + ?T"
    unfolding p0 .
  also have "\<dots> = x 0 * x 0 + 2 * (sgn (x 0) * r * x 0) + (sgn (x 0) * sgn (x 0)) * (r * r) + ?T"
    by (simp add: algebra_simps)
  also have "\<dots> = 2 * (?X + sgn (x 0) * r * x 0)"
    unfolding sg rr X by simp
  finally have pp: "(\<Sum>l<n. p l * p l) = 2 * (\<Sum>l<n. p l * x l)"
    unfolding px .
  have P0: "0 \<le> (\<Sum>l<n. p l * p l)" by (rule sum_nonneg) simp
  have ss: "s * s = (\<Sum>l<n. p l * p l)" unfolding s using P0 by simp
  have "0 < x 0 * x 0" using x0 by (auto simp add: zero_less_mult_iff)
  moreover have "0 \<le> ?T" by (rule sum_nonneg) simp
  ultimately have Xpos: "0 < ?X" unfolding X by linarith
  have r0: "0 \<le> r" unfolding r using X0 by simp
  have "0 \<le> sgn (x 0) * x 0" by (simp add: sgn_if)
  with r0 have "0 \<le> r * (sgn (x 0) * x 0)" by (rule mult_nonneg_nonneg)
  with Xpos have "0 < (\<Sum>l<n. p l * x l)" unfolding px by (simp add: algebra_simps)
  with pp ss have False: "s \<noteq> 0" by auto
  show ?thesis
  proof -
    have "(\<Sum>l<n. p l / s * x l) = (\<Sum>l<n. p l * x l) / s"
      by (simp add: sum_divide_distrib)
    then have "2 * (p i / s) * (\<Sum>l<n. p l / s * x l) = p i * (2 * (\<Sum>l<n. p l * x l)) / (s * s)"
      by simp
    also have "\<dots> = p i" unfolding pp [symmetric] ss [symmetric] using False by simp
    finally show ?thesis using p [OF i] by simp
  qed
qed


lemma leading_nonzero_vec: "k < nrows R \<Longrightarrow> ent R k k \<noteq> 0 \<Longrightarrow> nonzero_vec (col_from R k k)"
  unfolding nonzero_vec_def by (rule exI [of _ 0]) simp

lemma householder_step_left_columns:
  assumes run: "householder_step k (V, R) = Inr (V', R')" and j: "j < k"
  shows "ent R' i j = ent R i j"
proof -
  have km: "k < nrows R"
  proof (rule ccontr)
    assume "\<not> k < nrows R"
    then have "householder_step k (V, R) = Inl IndexError" by (simp add: householder_step_Inl)
    with run show False by simp
  qed
  from run householder_step_Inr [OF km, of V] obtain W where "R' = fold (reflect_col W k) [k..<ncols R] R"
    by auto
  with j show ?thesis by (simp add: fold_reflect_col_ent)
qed

lemma householder_step_clears:
  assumes R: "fin_mat R" and k: "k < ncols R" and km: "k < nrows R" and dims: "nrows V = nrows R"
    and lead: "ent R k k \<noteq> 0"
    and run: "householder_step k (V, R) = Inr (V', R')"
    and i: "k < i" "i < nrows R"
  shows "ent R' i k = 0"
proof -
  let ?m = "nrows R"
  let ?n = "?m - k"
  define c where "c = col_from R k k"
  define p where "p = perturb c"
  define v where "v = vdiv p (norm2 p)"
  define W where "W = set_col_from V k k v"
  from run householder_step_Inr [OF km, of V]
  have R': "R' = fold (reflect_col W k) [k..<ncols R] R"
    unfolding W_def v_def p_def c_def by auto
  have c: "fin_vec c" unfolding c_def by (rule fin_vec_col [OF R k])
  have clen: "vlen c = ?n" unfolding c_def by simp
  have n: "0 < ?n" using km by simp
  have nz: "nonzero_vec c" unfolding c_def by (rule leading_nonzero_vec [OF km lead])
  define x where "x l = re (vent c l)" for l
  have cx: "vent c l = Fin (x l)" if "l < ?n" for l
    using fin_vecD [OF c, of l] that unfolding x_def clen by auto
  have "vent c 0 = ent R k k" unfolding c_def by simp
  with lead cx [OF n] have x0: "x 0 \<noteq> 0" by (auto simp: zero_fl_def)
  define r where "r = sqrt (\<Sum>l<?n. x l * x l)"
  define q where "q l = re (vent p l)" for l
  have pf: "fin_vec p" unfolding p_def by (rule perturb_fin(1) [OF c])
  have plen: "vlen p = ?n" unfolding p_def by (simp add: clen)
  have pq: "vent p l = Fin (q l)" if "l < ?n" for l
    using fin_vecD [OF pf, of l] that unfolding q_def plen by auto
  have q0: "q 0 = x 0 + sgn (x 0) * r"
    using perturb_fin(2) [OF c, of 0] n unfolding q_def p_def x_def r_def clen by simp
  have ql: "q l = x l" if "0 < l" for l
    using that unfolding q_def p_def x_def by simp
  define s where "s = sqrt (\<Sum>l<?n. q l * q l)"
  have np: "norm2 p = Fin s" using norm2_fin [OF pf] unfolding s_def q_def plen .
  have "0 < (\<Sum>l<?n. q l * q l)"
    using perturb_nonzero [OF c nz] unfolding q_def p_def clen .
  then have spos: "0 < s" unfolding s_def by simp
  have vq: "vent v l = Fin (q l / s)" if "l < ?n" for l
    unfolding v_def using pq [OF that] np spos by simp
  have entW: "ent W (k + l) k = Fin (q l / s)" if "l < ?n" for l
  proof -
    from that have "k + l < ?m" by linarith
    with vq [OF that] dims show ?thesis unfolding W_def by simp
  qed
  have "dot (col_from W k k) (col_from R k k) = (\<Sum>l<?n. Fin (q l / s * x l))"
    unfolding dot_def
  proof (rule sum.cong)
    fix l assume "l \<in> {..<?n}"
    then have l: "l < ?n" by simp
    have "vent (col_from R k k) l = Fin (x l)" using cx [OF l] unfolding c_def .
    with entW [OF l] show "vent (col_from W k k) l * vent (col_from R k k) l = Fin (q l / s * x l)"
      by simp
  qed (simp add: W_def dims)
  then have d: "dot (col_from W k k) (col_from R k k) = Fin (\<Sum>l<?n. q l / s * x l)"
    by simp
  define l where "l = i - k"
  from i have l: "0 < l" "l < ?n" "i = k + l" unfolding l_def by simp_all
  have "ent R i k = Fin (x l)" using cx [OF l(2)] unfolding c_def l(3) by simp
  moreover have "ent W i k = Fin (q l / s)" unfolding l(3) by (rule entW [OF l(2)])
  moreover have "ent R' i k = ent R i k - 2 * ent W i k * dot (col_from W k k) (col_from R k k)"
    unfolding R' using k i by (simp add: fold_reflect_col_ent)
  ultimately have "ent R' i k = Fin (x l - 2 * (q l / s) * (\<Sum>l<?n. q l / s * x l))"
    unfolding d by (simp add: numeral_fl)
  also have "x l - 2 * (q l / s) * (\<Sum>l<?n. q l / s * x l) = 0"
    by (rule reflection_clears [OF n x0 r_def q0 ql s_def l(1)])
  finally show ?thesis by (simp add: zero_fl_def)
qed

text \<open>A reflection by a unit vector, or by the zero vector, is its own inverse.\<close>

lemma reflect_twice:
  fixes x v :: "nat \<Rightarrow> real"
  assumes "(\<Sum>l\<in>S. v l * v l) = 1 \<or> (\<forall>l\<in>S. v l = 0)"
    and y: "\<And>l. l \<in> S \<Longrightarrow> y l = x l - 2 * (\<Sum>l\<in>S. v l * x l) * v l"
    and i: "i \<in> S"
  shows "y i - 2 * (\<Sum>l\<in>S. v l * y l) * v i = x i"
proof -
  let ?d = "\<Sum>l\<in>S. v l * x l" and ?W = "\<Sum>l\<in>S. v l * v l"
  have "(\<Sum>l\<in>S. v l * y l) = (\<Sum>l\<in>S. v l * x l - 2 * ?d * (v l * v l))"
    by (rule sum.cong) (simp_all add: y algebra_simps)
  also have "\<dots> = ?d - 2 * ?d * ?W"
    by (simp add: sum_subtractf sum_distrib_left)
  finally have d: "(\<Sum>l\<in>S. v l * y l) = ?d - 2 * ?d * ?W" .
  from assms(1) show ?thesis
  proof
    assume "?W = 1"
    then show ?thesis unfolding d y [OF i] by (simp add: algebra_simps)
  next
    assume z: "\<forall>l\<in>S. v l = 0"
    then have "?d = 0" "?W = 0" by simp_all
    then show ?thesis unfolding d y [OF i] by simp
  qed
qed

lemma reflect_tail_cong:
  assumes "nrows V = nrows W" "\<And>i. ent V i k = ent W i k"
  shows "reflect_tail V k x = reflect_tail W k x"
proof -
  have "col_from V k k = col_from W k k"
    by (simp add: vec_eq_iff assms)
  then show ?thesis by (simp add: reflect_tail_def)
qed

lemma apply_Q_loop_append:
  "apply_Q_loop V (ks @ ls) x =
     (case apply_Q_loop V ks x of Inl e \<Rightarrow> Inl e | Inr y \<Rightarrow> apply_Q_loop V ls y)"
  by (induct ks arbitrary: x) (simp_all split: sum.splits)

text \<open>A column of \<open>V\<close> that is zero from the diagonal down reflects nothing.\<close>

lemma reflect_tail_zero_column:
  assumes x: "fin_vec x" "vlen x = nrows V" and z: "\<And>i. ent V i k = 0"
  shows "reflect_tail V k x = Inr x"
proof -
  let ?y = "set_tail x k (vsub (tail_from x k)
              (smul (2 * dot (col_from V k k) (tail_from x k)) (col_from V k k)))"
  have run: "reflect_tail V k x = Inr ?y"
    using x(2) by (simp add: reflect_tail_def)
  have "dot (col_from V k k) (tail_from x k) = (\<Sum>l<nrows V - k. Fin 0)"
    unfolding dot_def
  proof (rule sum.cong)
    fix l assume "l \<in> {..<nrows V - k}"
    then have "k + l < vlen x" using x(2) by simp
    from fin_vecD [OF x(1) this] obtain a where "vent x (k + l) = Fin a" ..
    then show "vent (col_from V k k) l * vent (tail_from x k) l = Fin 0"
      by (simp add: z zero_fl_def)
  qed simp
  then have d: "dot (col_from V k k) (tail_from x k) = Fin 0" by simp
  have "vent ?y i = vent x i" for i
  proof (cases "k \<le> i \<and> i < vlen x")
    case True
    with fin_vecD [OF x(1), of i] obtain a where "vent x i = Fin a" by auto
    with True show ?thesis by (simp add: d z zero_fl_def numeral_fl)
  next
    case False
    then show ?thesis by auto
  qed
  then have "?y = x" by (simp add: vec_eq_iff)
  with run show ?thesis by simp
qed

text \<open>
  The reflector stored at step \<open>k\<close> takes every column of the new \<open>R\<close> back to the column
  of the old one: the columns from \<open>k\<close> on were reflected by it, and the columns before
  \<open>k\<close> are zero from row \<open>k\<close> down.
\<close>

lemma householder_step_undo:
  assumes R: "fin_mat R" and k: "k < ncols R" and km: "k < nrows R"
    and run: "householder_step k (V, R) = Inr (V1, R1)"
    and V1: "reflector_set V1" and R1: "fin_mat R1"
    and dims: "nrows V1 = nrows R" "ncols V1 = ncols R" "nrows R1 = nrows R" "ncols R1 = ncols R"
    and low: "\<And>i j. j < k \<Longrightarrow> j < i \<Longrightarrow> i < nrows R \<Longrightarrow> ent R i j = 0"
    and j: "j < ncols R"
  shows "reflect_tail V1 k (col_from R1 0 j) = Inr (col_from R 0 j)"
proof -
  let ?m = "nrows R"
  let ?S = "{k..<?m}"
  define x where "x = col_from R1 0 j"
  define v where "v l = re (ent V1 l k)" for l
  define a where "a l = re (ent R l j)" for l
  define b where "b l = re (ent R1 l j)" for l
  from V1 have fV1: "fin_mat V1" by (simp add: reflector_set_def)
  have kV1: "k < ncols V1" using k dims by simp
  have xf: "fin_vec x" unfolding x_def by (rule fin_vec_col) (use R1 j dims in simp_all)
  have xl: "vlen x = nrows V1" unfolding x_def by (simp add: dims)
  have xm: "vlen x = ?m" unfolding x_def by (simp add: dims)
  have xb: "re (vent x l) = b l" for l unfolding x_def b_def by simp
  from run householder_step_Inr [OF km, of V]
  have R1_eq: "R1 = fold (reflect_col V1 k) [k..<ncols R] R" by auto
  have entR1: "ent R1 i j = (if k \<le> j \<and> k \<le> i \<and> i < ?m
      then ent R i j - 2 * ent V1 i k * dot (col_from V1 k k) (col_from R k j) else ent R i j)" for i
    unfolding R1_eq using j by (simp add: fold_reflect_col_ent)
  have Ra: "ent R l j = Fin (a l)" if "l < ?m" for l
    using fin_matD [OF R that j] unfolding a_def by auto
  have Vv: "ent V1 l k = Fin (v l)" if "l < ?m" for l
    using fin_matD [OF fV1 _ kV1, of l] that dims unfolding v_def by auto
  have unit: "(\<Sum>l\<in>?S. v l * v l) = 1 \<or> (\<forall>l\<in>?S. v l = 0)"
    using unit_or_zero_col [OF V1 kV1] unfolding v_def dims .
  have "dot (col_from V1 k k) (col_from R k j) = (\<Sum>l\<in>?S. ent V1 l k * ent R l j)"
    by (simp add: dot_def dims sum_shift [of "\<lambda>l. ent V1 l k * ent R l j"])
  also have "\<dots> = (\<Sum>l\<in>?S. Fin (v l * a l))"
    by (rule sum.cong) (simp_all add: Ra Vv)
  finally have d: "dot (col_from V1 k k) (col_from R k j) = Fin (\<Sum>l\<in>?S. v l * a l)" by simp
  have bl: "b l = a l - 2 * (\<Sum>l\<in>?S. v l * a l) * v l" if l: "l \<in> ?S" for l
  proof (cases "k \<le> j")
    case True
    with l have "ent R1 l j = Fin (a l - 2 * (\<Sum>l\<in>?S. v l * a l) * v l)"
      by (simp add: entR1 d Ra Vv numeral_fl)
    then show ?thesis unfolding b_def by simp
  next
    case False
    then have jk: "j < k" by simp
    have "a i = 0" if "i \<in> ?S" for i
      using low [OF jk, of i] that jk unfolding a_def by simp
    then have "(\<Sum>l\<in>?S. v l * a l) = 0" "a l = 0" using l by simp_all
    moreover from False have "ent R1 l j = ent R l j" by (simp add: entR1)
    ultimately show ?thesis unfolding b_def a_def by simp
  qed
  from reflect_tail_fin [OF fV1 kV1 xf xl]
  obtain y where y: "reflect_tail V1 k x = Inr y" "vlen y = vlen x" "fin_vec y"
    and ry: "\<forall>i<vlen x. re (vent y i) =
       (if k \<le> i then re (vent x i) - 2 * (\<Sum>l\<in>{k..<vlen x}. re (ent V1 l k) * re (vent x l)) * re (ent V1 i k)
        else re (vent x i))"
    by blast
  let ?y = "set_tail x k (vsub (tail_from x k)
              (smul (2 * dot (col_from V1 k k) (tail_from x k)) (col_from V1 k k)))"
  have "reflect_tail V1 k x = Inr ?y"
    using xl by (simp add: reflect_tail_def)
  with y(1) have yy: "y = ?y" by simp
  have "vent y i = ent R i j" for i
  proof (cases "i < ?m")
    case True
    from fin_vecD [OF y(3), of i] True y(2) xm obtain t where t: "vent y i = Fin t" by auto
    from True xm have "i < vlen x" by simp
    from ry [rule_format, OF this] have "t = (if k \<le> i then b i - 2 * (\<Sum>l\<in>?S. v l * b l) * v i else b i)"
      unfolding xb v_def [symmetric] t xm by simp
    also have "\<dots> = a i"
    proof (cases "k \<le> i")
      case ki: True
      with True have "i \<in> ?S" by simp
      from reflect_twice [OF unit bl this] ki show ?thesis by simp
    next
      case False
      with entR1 [of i] show ?thesis unfolding b_def a_def by simp
    qed
    finally show ?thesis using t Ra [OF True] by simp
  next
    case False
    then have "vent y i = ent R1 i j" unfolding yy x_def by (simp add: dims)
    with False show ?thesis by (simp add: entR1)
  qed
  then have "y = col_from R 0 j" by (simp add: vec_eq_iff y(2) xm)
  with y(1) show ?thesis unfolding x_def by simp
qed


text \<open>
  The invariant of the outer loop when no leading entry is zero: the columns already
  passed are zero below the diagonal, and the reflectors stored so far, applied in
  reverse order, take every column of \<open>R\<close> back to the column the loop started from.
\<close>

lemma householder_loop_clears:
  "leading_entries_nonzero [a..<b] (V, R) \<Longrightarrow> a \<le> b \<Longrightarrow> b \<le> ncols R \<Longrightarrow>
   reflector_set V \<Longrightarrow> fin_mat R \<Longrightarrow> nrows V = nrows R \<Longrightarrow> ncols V = ncols R \<Longrightarrow>
   (\<And>i j. j < a \<Longrightarrow> j < i \<Longrightarrow> i < nrows R \<Longrightarrow> ent R i j = 0) \<Longrightarrow>
   \<exists>V' R'. householder_loop [a..<b] (V, R) = Inr (V', R') \<and> reflector_set V' \<and> fin_mat R' \<and>
     nrows V' = nrows R \<and> ncols V' = ncols R \<and> nrows R' = nrows R \<and> ncols R' = ncols R \<and>
     (\<forall>i j. j < b \<and> j < i \<and> i < nrows R \<longrightarrow> ent R' i j = 0) \<and>
     (\<forall>j<ncols R. apply_Q_loop V' (rev [a..<b]) (col_from R' 0 j) = Inr (col_from R 0 j))"
proof (induct "b - a" arbitrary: a V R)
  case 0
  then have "a = b" by simp
  with 0 show ?case by simp
next
  case (Suc d)
  from Suc.hyps(2) have ab: "a < b" by simp
  then have upt: "[a..<b] = a # [Suc a..<b]" by (rule upt_conv_Cons)
  from Suc.prems(1) have am: "a < nrows R" and lead: "ent R a a \<noteq> 0"
    unfolding upt by simp_all
  from ab Suc.prems(3) have an: "a < ncols R" by simp
  have nz: "nonzero_vec (col_from R a a)" by (rule leading_nonzero_vec [OF am lead])
  from householder_step_reflectors [OF Suc.prems(4,5,6,7) an nz]
  obtain V1 R1 where step: "householder_step a (V, R) = Inr (V1, R1)"
    and inv: "reflector_set V1" "fin_mat R1"
    and d: "nrows V1 = nrows R" "ncols V1 = ncols R" "nrows R1 = nrows R" "ncols R1 = ncols R"
    by blast
  from Suc.prems(1) step have lead': "leading_entries_nonzero [Suc a..<b] (V1, R1)"
    unfolding upt by simp
  have low: "ent R1 i j = 0" if "j < Suc a" "j < i" "i < nrows R1" for i j
  proof (cases "j = a")
    case True
    with that d show ?thesis
      using householder_step_clears [OF Suc.prems(5) an am Suc.prems(6) lead step, of i] by simp
  next
    case False
    with that have ja: "j < a" by simp
    from householder_step_left_columns [OF step ja] Suc.prems(8) [OF ja that(2)] that(3) d
    show ?thesis by simp
  qed
  from Suc.hyps(2) have "d = b - Suc a" by simp
  from Suc.hyps(1) [OF this lead' _ _ inv _ _ low] ab Suc.prems(3) d
  obtain V' R' where rest: "householder_loop [Suc a..<b] (V1, R1) = Inr (V', R')"
    and inv': "reflector_set V'" "fin_mat R'"
    and d': "nrows V' = nrows R" "ncols V' = ncols R" "nrows R' = nrows R" "ncols R' = ncols R"
    and low': "\<forall>i j. j < b \<and> j < i \<and> i < nrows R \<longrightarrow> ent R' i j = 0"
    and unwind: "\<forall>j<ncols R. apply_Q_loop V' (rev [Suc a..<b]) (col_from R' 0 j) = Inr (col_from R1 0 j)"
    by auto
  have "apply_Q_loop V' (rev [a..<b]) (col_from R' 0 j) = Inr (col_from R 0 j)" if j: "j < ncols R" for j
  proof -
    have "ent V' i a = ent V1 i a" for i
      using NaN_stays_loop [OF rest, of a i] by simp
    with d d' have "reflect_tail V' a (col_from R1 0 j) = reflect_tail V1 a (col_from R1 0 j)"
      by (intro reflect_tail_cong) simp_all
    also have "\<dots> = Inr (col_from R 0 j)"
      by (rule householder_step_undo [OF Suc.prems(5) an am step inv d Suc.prems(8) j])
    finally show ?thesis
      using unwind j unfolding upt by (simp add: apply_Q_loop_append)
  qed
  with step rest inv' d' low' show ?case unfolding upt by simp
qed

text \<open>
  When the leading entry of every extracted sub-column is nonzero, \<open>householder\<close> returns
  and the \<open>R\<close> it returns is zero below the diagonal.
\<close>

lemma householder_triangular:
  assumes A: "fin_mat A" and lead: "all_leading_entries_nonzero A"
  shows "\<exists>V R. householder A = Inr (V, R) \<and>
           (\<forall>i j. j < i \<and> i < nrows R \<longrightarrow> ent R i j = 0)"
proof -
  let ?m = "nrows A" and ?n = "ncols A"
  from householder_loop_clears [OF lead [unfolded all_leading_entries_nonzero_def] _ _
      reflector_set_zeros A]
  obtain V R where loop: "householder_loop [0..<?n - 1] (zeros2 ?m ?n, A) = Inr (V, R)"
    and low: "\<forall>i j. j < ?n - 1 \<and> j < i \<and> i < ?m \<longrightarrow> ent R i j = 0"
    and dR: "nrows R = ?m"
    by auto
  from loop have run: "householder A = Inr (V, rows_upto R ?n)"
    by (simp add: householder_def Let_def)
  have "ent (rows_upto R ?n) i j = 0" if "j < i" "i < nrows (rows_upto R ?n)" for i j
  proof -
    from that dR have "i < ?n" "i < ?m" by simp_all
    with that(1) have "j < ?n - 1" by simp
    with low that(1) \<open>i < ?m\<close> show ?thesis by simp
  qed
  with run show ?thesis by blast
qed

text \<open>
  For a square matrix of reals, when the leading entry of every extracted sub-column is
  nonzero, the product of \<open>Q\<close> and \<open>R\<close> is the matrix that was factored.
\<close>

lemma QR_is_A:
  assumes A: "fin_mat A" and sq: "nrows A = ncols A" and lead: "all_leading_entries_nonzero A"
  shows "QR_of A = Inr (to_rows A)"
proof -
  let ?n = "ncols A"
  from householder_loop_clears [OF lead [unfolded all_leading_entries_nonzero_def] _ _
      reflector_set_zeros A] sq
  obtain V R where loop: "householder_loop [0..<?n - 1] (zeros2 ?n ?n, A) = Inr (V, R)"
    and V: "reflector_set V" and R: "fin_mat R"
    and dV: "nrows V = ?n" "ncols V = ?n" and dR: "nrows R = ?n" "ncols R = ?n"
    and unwind: "\<forall>j<?n. apply_Q_loop V (rev [0..<?n - 1]) (col_from R 0 j) = Inr (col_from A 0 j)"
    by auto
  from loop sq have run: "householder A = Inr (V, rows_upto R ?n)"
    by (simp add: householder_def Let_def)
  from V have fV: "fin_mat V" by (simp add: reflector_set_def)
  from dV have sqV: "nrows V = ncols V" by simp
  have "fin_vec (zeros1 ?n)" by (simp add: fin_vec_def)
  from apply_Q_matvec [OF fV sqV this] dV
  obtain Q where Q: "compute_Q V = Inr Q" "nrows Q = ?n" "ncols Q = ?n"
    by auto
  have entry: "ent (matmul Q (rows_upto R ?n)) i j = ent A i j" if ij: "i < ?n" "j < ?n" for i j
  proof -
    let ?x = "col_from R 0 j"
    have xf: "fin_vec ?x" by (rule fin_vec_col) (use R ij dR in simp_all)
    have xl: "vlen ?x = nrows V" by (simp add: dV dR)
    from ij have n: "[0..<?n] = [0..<?n - 1] @ [?n - 1]"
      using upt_Suc_append [of 0 "?n - 1"] by simp
    have "ent V l (?n - 1) = 0" for l
      using NaN_stays_loop [OF loop, of "?n - 1" l] by simp
    with xf xl have "reflect_tail V (?n - 1) ?x = Inr ?x"
      by (rule reflect_tail_zero_column)
    then have "apply_Q V ?x = apply_Q_loop V (rev [0..<?n - 1]) ?x"
      unfolding apply_Q_def dV by (subst n) simp
    with unwind ij have app: "apply_Q V ?x = Inr (col_from A 0 j)" by simp
    from apply_Q_matvec [OF fV sqV xf xl] Q(1) app dV ij
    have "vent (col_from A 0 j) i = vent (matvec Q ?x) i" by auto
    then show ?thesis
      by (simp add: matmul_def matvec_def)
  qed
  have d: "nrows (matmul Q (rows_upto R ?n)) = nrows A" "ncols (matmul Q (rows_upto R ?n)) = ncols A"
    using Q dR sq by (simp_all add: matmul_def)
  have "to_rows (matmul Q (rows_upto R ?n)) = to_rows A"
    unfolding to_rows_def d using entry sq by simp
  with run Q(1) show ?thesis by (simp add: QR_of_def)
qed

text \<open>The rotation matrix used above is such a run; the two results at it.\<close>

lemma rot_leading_entries:
  "all_leading_entries_nonzero
     (mat_of 3 3 [[Fin (7/25), Fin (- (24/25)), Fin 0], [Fin (24/25), Fin (7/25), Fin 0], [Fin 0, Fin 0, Fin 1]])"
  using rot_step0 rot_step1
  by (simp add: all_leading_entries_nonzero_def upt_2 zeros2_mat_of eval_nat_numeral zero_fl_def
      del: ent_mat_of)
     (simp add: eval_nat_numeral)

lemma rot_factors:
  "(\<exists>V R. householder (mat_of 3 3 [[Fin (7/25), Fin (- (24/25)), Fin 0], [Fin (24/25), Fin (7/25), Fin 0], [Fin 0, Fin 0, Fin 1]]) = Inr (V, R) \<and>
      ent R 1 0 = 0 \<and> ent R 2 0 = 0 \<and> ent R 2 1 = 0) \<and>
   QR_of (mat_of 3 3 [[Fin (7/25), Fin (- (24/25)), Fin 0], [Fin (24/25), Fin (7/25), Fin 0], [Fin 0, Fin 0, Fin 1]]) =
     Inr [[Fin (7/25), Fin (- (24/25)), Fin 0], [Fin (24/25), Fin (7/25), Fin 0], [Fin 0, Fin 0, Fin 1]]"
proof -
  let ?A = "mat_of 3 3 [[Fin (7/25), Fin (- (24/25)), Fin 0], [Fin (24/25), Fin (7/25), Fin 0], [Fin 0, Fin 0, Fin 1]]"
  have A: "fin_mat ?A" by (simp add: fin_mat_def All_less_Suc eval_nat_numeral)
  have sq: "nrows ?A = ncols ?A" by simp
  from householder_triangular [OF A rot_leading_entries]
  obtain V R where run: "householder ?A = Inr (V, R)"
    and low: "\<forall>i j. j < i \<and> i < nrows R \<longrightarrow> ent R i j = 0"
    by blast
  from run have "nrows R = 3" unfolding rot_householder by auto
  with low have "ent R 1 0 = 0 \<and> ent R 2 0 = 0 \<and> ent R 2 1 = 0" by simp
  with run have 1: "\<exists>V R. householder ?A = Inr (V, R) \<and> ent R 1 0 = 0 \<and> ent R 2 0 = 0 \<and> ent R 2 1 = 0"
    by blast
  have "to_rows ?A = [[Fin (7/25), Fin (- (24/25)), Fin 0], [Fin (24/25), Fin (7/25), Fin 0], [Fin 0, Fin 0, Fin 1]]"
    by (simp add: to_rows_def eval_nat_numeral)
  with QR_is_A [OF A sq rot_leading_entries] 1 show ?thesis by simp
qed

end
